theory Spec2Isabelle
  imports Main "HOL-Library.Word"
begin

section \<open>JavaScript strings\<close>

text \<open>
  A JavaScript string is a sequence of UTF-16 code units.  String literals of the
  scripts are ASCII; \<open>js\<close> embeds such a literal.
\<close>

type_synonym cu = "16 word"
type_synonym jsstring = "cu list"

definition js :: "string \<Rightarrow> jsstring" where
  "js s = map of_char s"

text \<open>\<^verbatim>\<open>\w\<close> is \<^verbatim>\<open>[A-Za-z0-9_]\<close> (no \<^verbatim>\<open>i\<close> or \<^verbatim>\<open>u\<close> flag is used).\<close>

definition isWordChar :: "cu \<Rightarrow> bool" where
  "isWordChar c \<longleftrightarrow>
     (0x61 \<le> c \<and> c \<le> 0x7A) \<or> (0x41 \<le> c \<and> c \<le> 0x5A) \<or> (0x30 \<le> c \<and> c \<le> 0x39) \<or> c = 0x5F"

text \<open>Line terminators: LF, CR, LS, PS.  The dot matches every other code unit.\<close>

definition isLineTerminator :: "cu \<Rightarrow> bool" where
  "isLineTerminator c \<longleftrightarrow> c = 0x0A \<or> c = 0x0D \<or> c = 0x2028 \<or> c = 0x2029"

text \<open>
  \<^verbatim>\<open>\s\<close>, and what \<^verbatim>\<open>String.prototype.trim\<close> strips: the white space code points
  (TAB, VT, FF, SP, NBSP, ZWNBSP and the space separators) and the line terminators.
\<close>

definition isSpaceChar :: "cu \<Rightarrow> bool" where
  "isSpaceChar c \<longleftrightarrow>
     c = 0x09 \<or> c = 0x0B \<or> c = 0x0C \<or> c = 0x20 \<or> c = 0xA0 \<or> c = 0x1680 \<or>
     (0x2000 \<le> c \<and> c \<le> 0x200A) \<or> c = 0x202F \<or> c = 0x205F \<or> c = 0x3000 \<or> c = 0xFEFF \<or>
     isLineTerminator c"

definition trim :: "jsstring \<Rightarrow> jsstring" where
  "trim s = rev (dropWhile isSpaceChar (rev (dropWhile isSpaceChar s)))"

text \<open>\<^verbatim>\<open>s.split(d)\<close> for a one-unit separator: never empty, \<^verbatim>\<open>"".split(d)\<close> is \<^verbatim>\<open>[""]\<close>.\<close>

fun split :: "cu \<Rightarrow> jsstring \<Rightarrow> jsstring list" where
  "split d [] = [[]]"
| "split d (x # xs) =
     (if x = d then [] # split d xs
      else (case split d xs of [] \<Rightarrow> [[x]] | y # ys \<Rightarrow> (x # y) # ys))"

text \<open>\<^verbatim>\<open>xs.join(sep)\<close>.\<close>

fun join :: "jsstring \<Rightarrow> jsstring list \<Rightarrow> jsstring" where
  "join sep [] = []"
| "join sep [x] = x"
| "join sep (x # y # ys) = x @ sep @ join sep (y # ys)"

section \<open>Regular expressions of the scripts\<close>

text \<open>
  The fragment of the regular-expression syntax that the scripts use: one code unit
  (a literal, \<^verbatim>\<open>\w\<close>, \<^verbatim>\<open>\s\<close> or the dot), the quantifiers \<^verbatim>\<open>*\<close>, \<^verbatim>\<open>+\<close> and \<^verbatim>\<open>*?\<close> on one code
  unit, \<^verbatim>\<open>(...)?\<close>, capture groups, concatenation, \<^verbatim>\<open>\b\<close> and \<^verbatim>\<open>$\<close>.
\<close>

datatype cclass = Lit cu | WordC | SpaceC | Dot

fun cmatch :: "cclass \<Rightarrow> cu \<Rightarrow> bool" where
  "cmatch (Lit a) c = (c = a)"
| "cmatch WordC c = isWordChar c"
| "cmatch SpaceC c = isSpaceChar c"
| "cmatch Dot c = (\<not> isLineTerminator c)"

datatype regex =
    Eps
  | Atom cclass
  | Star cclass
  | Plus cclass
  | LazyStar cclass
  | Opt regex
  | Group nat regex
  | Seq regex regex
  | Bound
  | End

definition cat :: "regex list \<Rightarrow> regex" where
  "cat rs = foldr Seq rs Eps"

definition lit :: "string \<Rightarrow> regex" where
  "lit s = cat (map (\<lambda>c. Atom (Lit (of_char c))) s)"

text \<open>
  The matcher is the backtracking matcher of the language: it explores the
  alternatives depth first, in priority order, and the first success is the match.
  \<open>ms e p r cs\<close> lists all the ways in which \<open>e\<close> matches a prefix of the rest
  \<open>r\<close> of the input, in that order; \<open>p\<close> is the code unit before \<open>r\<close> (for \<^verbatim>\<open>\b\<close>),
  \<open>cs\<close> the captures so far.  A group that did not take part is undefined (\<open>None\<close>).
  A quantifier on one code unit reads one code unit in every round, the greedy ones as
  many as they can first, the lazy one as few; \<^verbatim>\<open>(...)?\<close> tries its body first and rejects
  a round that reads nothing.  The groups of an expression have different numbers.
\<close>

type_synonym captures = "nat \<Rightarrow> jsstring option"
type_synonym mstate = "cu option \<times> jsstring \<times> captures"

fun star_greedy :: "cclass \<Rightarrow> cu option \<Rightarrow> jsstring \<Rightarrow> (cu option \<times> jsstring) list" where
  "star_greedy c p [] = [(p, [])]"
| "star_greedy c p (x # xs) =
     (if cmatch c x then star_greedy c (Some x) xs @ [(p, x # xs)] else [(p, x # xs)])"

fun star_lazy :: "cclass \<Rightarrow> cu option \<Rightarrow> jsstring \<Rightarrow> (cu option \<times> jsstring) list" where
  "star_lazy c p [] = [(p, [])]"
| "star_lazy c p (x # xs) =
     (if cmatch c x then (p, x # xs) # star_lazy c (Some x) xs else [(p, x # xs)])"

definition isWordBefore :: "cu option \<Rightarrow> bool" where
  "isWordBefore p = (case p of None \<Rightarrow> False | Some c \<Rightarrow> isWordChar c)"

definition isWordAfter :: "jsstring \<Rightarrow> bool" where
  "isWordAfter r = (case r of [] \<Rightarrow> False | c # _ \<Rightarrow> isWordChar c)"

fun ms :: "regex \<Rightarrow> cu option \<Rightarrow> jsstring \<Rightarrow> captures \<Rightarrow> mstate list" where
  "ms Eps p r cs = [(p, r, cs)]"
| "ms (Atom c) p [] cs = []"
| "ms (Atom c) p (x # xs) cs = (if cmatch c x then [(Some x, xs, cs)] else [])"
| "ms (Star c) p r cs = map (\<lambda>(p', r'). (p', r', cs)) (star_greedy c p r)"
| "ms (Plus c) p [] cs = []"
| "ms (Plus c) p (x # xs) cs =
     (if cmatch c x then map (\<lambda>(p', r'). (p', r', cs)) (star_greedy c (Some x) xs) else [])"
| "ms (LazyStar c) p r cs = map (\<lambda>(p', r'). (p', r', cs)) (star_lazy c p r)"
| "ms (Opt e) p r cs =
     filter (\<lambda>(p', r', cs'). length r' \<noteq> length r) (ms e p r cs) @ [(p, r, cs)]"
| "ms (Group k e) p r cs =
     map (\<lambda>(p', r', cs'). (p', r', cs'(k \<mapsto> take (length r - length r') r))) (ms e p r cs)"
| "ms (Seq a b) p r cs = concat (map (\<lambda>(p', r', cs'). ms b p' r' cs') (ms a p r cs))"
| "ms Bound p r cs = (if isWordBefore p \<noteq> isWordAfter r then [(p, r, cs)] else [])"
| "ms End p r cs = (if r = [] then [(p, r, cs)] else [])"

text \<open>
  \<^verbatim>\<open>str.match(re)\<close> for a regular expression without flags: the start positions are tried
  from the left, the end of the input included; the result is \<^verbatim>\<open>null\<close> (\<open>None\<close>) or the
  captures, the whole match at index 0.
\<close>

fun search :: "regex \<Rightarrow> cu option \<Rightarrow> jsstring \<Rightarrow> captures option" where
  "search e p [] =
     (case ms e p [] (\<lambda>_. None) of
        [] \<Rightarrow> None
      | (p', r', cs) # _ \<Rightarrow> Some (cs(0 \<mapsto> [])))"
| "search e p (x # xs) =
     (case ms e p (x # xs) (\<lambda>_. None) of
        [] \<Rightarrow> search e (Some x) xs
      | (p', r', cs) # _ \<Rightarrow> Some (cs(0 \<mapsto> take (length (x # xs) - length r') (x # xs))))"

definition match :: "jsstring \<Rightarrow> regex \<Rightarrow> captures option" where
  "match s e = search e None s"

text \<open>The truth value of a match result, as in \<^verbatim>\<open>if (functionMatch)\<close>.\<close>

definition matched :: "captures option \<Rightarrow> bool" where
  "matched v = (case v of None \<Rightarrow> False | Some _ \<Rightarrow> True)"

text \<open>
  What JavaScript makes of a possibly undefined capture: \<open>toStr\<close> is the conversion
  to a string (in a template literal or under \<^verbatim>\<open>+\<close>), \<open>orEmpty\<close> is \<^verbatim>\<open>v || ''\<close>.
\<close>

definition toStr :: "jsstring option \<Rightarrow> jsstring" where
  "toStr v = (case v of None \<Rightarrow> js ''undefined'' | Some s \<Rightarrow> s)"

definition orEmpty :: "jsstring option \<Rightarrow> jsstring" where
  "orEmpty v = (case v of None \<Rightarrow> [] | Some s \<Rightarrow> s)"

subsection \<open>The regular expressions, as the scripts write them\<close>

definition dq :: char where
  "dq = CHR 0x22"

text \<open>\<^verbatim>\<open>/(\w+)(\s+\w+)?(\[\])?$/\<close>\<close>

definition paramRe :: regex where
  "paramRe = cat [Group 1 (Plus WordC),
                  Opt (Group 2 (cat [Plus SpaceC, Plus WordC])),
                  Opt (Group 3 (lit ''[]'')),
                  End]"

text \<open>\<^verbatim>\<open>/function\s+(\w+)\s*\((.*?)\)\s*/\<close>\<close>

definition functionRe :: regex where
  "functionRe = cat [lit ''function'', Plus SpaceC, Group 1 (Plus WordC), Star SpaceC,
                     lit ''('', Group 2 (LazyStar Dot), lit '')'', Star SpaceC]"

text \<open>\<^verbatim>\<open>/error\s+(\w+)\s*\((.*?)\);/\<close>\<close>

definition errorRe :: regex where
  "errorRe = cat [lit ''error'', Plus SpaceC, Group 1 (Plus WordC), Star SpaceC,
                  lit ''('', Group 2 (LazyStar Dot), lit '');'']"

text \<open>\<^verbatim>\<open>/require\((.*?),\s*"(.*?)"\);\s*/\<close>\<close>

definition requireRe :: regex where
  "requireRe = cat [lit ''require('', Group 1 (LazyStar Dot), lit '','', Star SpaceC,
                    lit [dq], Group 2 (LazyStar Dot), lit (dq # '');''), Star SpaceC]"

text \<open>\<^verbatim>\<open>/\bpublic\b/\<close>\<close>

definition publicRe :: regex where
  "publicRe = cat [Bound, lit ''public'', Bound]"

text \<open>\<^verbatim>\<open>/\b(\w+)\s+(\w+)\s*=\s*(.*);/\<close>\<close>

definition varRe :: regex where
  "varRe = cat [Bound, Group 1 (Plus WordC), Plus SpaceC, Group 2 (Plus WordC), Star SpaceC,
                lit ''='', Star SpaceC, Group 3 (Star Dot), lit '';'']"

section \<open>First script\<close>

text \<open>
  The hash of the library, \<^verbatim>\<open>web3.utils.keccak256\<close>, is a parameter: \<open>keccak256\<close>.
\<close>

definition getKeccak256 :: "(jsstring \<Rightarrow> jsstring) \<Rightarrow> jsstring \<Rightarrow> jsstring" where
  "getKeccak256 keccak256 txt = take 10 (keccak256 txt)"

text \<open>The arrow function that \<^verbatim>\<open>getCanonicalForm\<close> maps over the inputs.\<close>

definition canonicalType :: "jsstring \<Rightarrow> jsstring" where
  "canonicalType input =
     (case match (trim input) paramRe of
        None \<Rightarrow> []
      | Some m \<Rightarrow> toStr (m 1) @ orEmpty (m 3))"

definition getCanonicalForm :: "jsstring \<Rightarrow> jsstring list \<Rightarrow> jsstring" where
  "getCanonicalForm name inputs =
     name @ js ''('' @ join (js '','') (map canonicalType inputs) @ js '')''"

text \<open>
  The records pushed on \<^verbatim>\<open>functions\<close>, \<^verbatim>\<open>errors\<close> and \<^verbatim>\<open>requires\<close>, and the three
  arrays that \<^verbatim>\<open>calculateSignatures\<close> fills and hands to \<^verbatim>\<open>writeMarkdown\<close>.
\<close>

record entry =
  line :: nat
  "text" :: jsstring
  signature :: jsstring

record sigs =
  "functions" :: "entry list"
  errors :: "entry list"
  requires :: "entry list"

text \<open>\<^verbatim>\<open>params.split(',').filter(Boolean)\<close>: the empty strings are the falsy ones.\<close>

definition splitParams :: "jsstring \<Rightarrow> jsstring list" where
  "splitParams params = filter (\<lambda>s. s \<noteq> []) (split (of_char CHR '','') params)"

text \<open>The three blocks of the \<^verbatim>\<open>forEach\<close> callback, each an \<^verbatim>\<open>if\<close> of its own.\<close>

definition matchFunction :: "(jsstring \<Rightarrow> jsstring) \<Rightarrow> nat \<Rightarrow> jsstring \<Rightarrow> sigs \<Rightarrow> sigs" where
  "matchFunction keccak256 index ln st =
     (case match ln functionRe of
        None \<Rightarrow> st
      | Some functionMatch \<Rightarrow>
          (let name = toStr (functionMatch 1);
               params = orEmpty (functionMatch 2);
               inputs = splitParams params;
               canonicalForm = getCanonicalForm name inputs;
               sig = getKeccak256 keccak256 canonicalForm
           in st\<lparr>functions := functions st @
                  [\<lparr>line = index + 1, text = canonicalForm, signature = sig\<rparr>]\<rparr>))"

definition matchError :: "(jsstring \<Rightarrow> jsstring) \<Rightarrow> nat \<Rightarrow> jsstring \<Rightarrow> sigs \<Rightarrow> sigs" where
  "matchError keccak256 index ln st =
     (case match ln errorRe of
        None \<Rightarrow> st
      | Some errorMatch \<Rightarrow>
          (let name = toStr (errorMatch 1);
               params = orEmpty (errorMatch 2);
               inputs = splitParams params;
               canonicalForm = getCanonicalForm name inputs;
               sig = getKeccak256 keccak256 canonicalForm
           in st\<lparr>errors := errors st @
                  [\<lparr>line = index + 1, text = canonicalForm, signature = sig\<rparr>]\<rparr>))"

text \<open>\<^verbatim>\<open>`require(${condition}, "${errorMessage}")`\<close>\<close>

definition requireText :: "jsstring \<Rightarrow> jsstring \<Rightarrow> jsstring" where
  "requireText condition errorMessage =
     js ''require('' @ condition @ js '', '' @ js [dq] @ errorMessage @ js [dq] @ js '')''"

definition matchRequire :: "(jsstring \<Rightarrow> jsstring) \<Rightarrow> nat \<Rightarrow> jsstring \<Rightarrow> sigs \<Rightarrow> sigs" where
  "matchRequire keccak256 index ln st =
     (case match ln requireRe of
        None \<Rightarrow> st
      | Some requireMatch \<Rightarrow>
          (let condition = toStr (requireMatch 1);
               errorMessage = toStr (requireMatch 2);
               errorSignature = getKeccak256 keccak256 errorMessage
           in st\<lparr>requires := requires st @
                  [\<lparr>line = index + 1,
                    text = requireText condition errorMessage,
                    signature = errorSignature\<rparr>]\<rparr>))"

text \<open>The callback of \<^verbatim>\<open>lines.forEach((line, index) => ...)\<close>.\<close>

definition processLine :: "(jsstring \<Rightarrow> jsstring) \<Rightarrow> sigs \<Rightarrow> nat \<times> jsstring \<Rightarrow> sigs" where
  "processLine keccak256 st il =
     matchRequire keccak256 (fst il) (snd il)
       (matchError keccak256 (fst il) (snd il)
         (matchFunction keccak256 (fst il) (snd il) st))"

definition noSigs :: sigs where
  "noSigs = \<lparr>functions = [], errors = [], requires = []\<rparr>"

definition calculateSignatures :: "(jsstring \<Rightarrow> jsstring) \<Rightarrow> jsstring \<Rightarrow> sigs" where
  "calculateSignatures keccak256 source =
     foldl (processLine keccak256) noSigs (enumerate 0 (split 0x0A source))"

section \<open>Second script\<close>

text \<open>
  Reading a property of \<^verbatim>\<open>null\<close> or \<^verbatim>\<open>undefined\<close> throws a \<^verbatim>\<open>TypeError\<close>.  The second
  script's \<^verbatim>\<open>getCanonicalForm\<close> indexes the result of \<^verbatim>\<open>match\<close> unguarded.  The exception
  leaves \<^verbatim>\<open>calculateSignatures\<close>; \<^verbatim>\<open>readFilesRecursively\<close> catches it, and nothing is
  written for the file.
\<close>

datatype error = TypeError

text \<open>\<^verbatim>\<open>input => input.trim().match(/(\w+)(\s+\w+)?(\[\])?$/)[1]\<close>\<close>

definition canonicalType2 :: "jsstring option \<Rightarrow> error + jsstring option" where
  "canonicalType2 input =
     (case input of
        None \<Rightarrow> Inl TypeError
      | Some i \<Rightarrow>
          (case match (trim i) paramRe of
             None \<Rightarrow> Inl TypeError
           | Some m \<Rightarrow> Inr (m 1)))"

text \<open>\<^verbatim>\<open>inputs.map(f)\<close> for an \<open>f\<close> that may throw: the first exception ends it.\<close>

fun mapE :: "('a \<Rightarrow> error + 'b) \<Rightarrow> 'a list \<Rightarrow> error + 'b list" where
  "mapE f [] = Inr []"
| "mapE f (x # xs) =
     (case f x of
        Inl e \<Rightarrow> Inl e
      | Inr y \<Rightarrow> (case mapE f xs of Inl e \<Rightarrow> Inl e | Inr ys \<Rightarrow> Inr (y # ys)))"

text \<open>\<^verbatim>\<open>join\<close> writes an undefined element as the empty string.\<close>

definition getCanonicalForm2 :: "jsstring \<Rightarrow> jsstring option list \<Rightarrow> error + jsstring" where
  "getCanonicalForm2 name inputs =
     (case mapE canonicalType2 inputs of
        Inl e \<Rightarrow> Inl e
      | Inr types \<Rightarrow> Inr (name @ js ''('' @ join (js '','') (map orEmpty types) @ js '')''))"

text \<open>The getters carry no line.\<close>

record getter =
  gtext :: jsstring
  gsignature :: jsstring

record sigs2 = sigs +
  getters :: "getter list"

definition matchFunction2 ::
  "(jsstring \<Rightarrow> jsstring) \<Rightarrow> nat \<Rightarrow> jsstring \<Rightarrow> sigs2 \<Rightarrow> error + sigs2" where
  "matchFunction2 keccak256 index ln st =
     (case match ln functionRe of
        None \<Rightarrow> Inr st
      | Some functionMatch \<Rightarrow>
          (let name = toStr (functionMatch 1);
               params = (case functionMatch 2 of None \<Rightarrow> [] | Some p \<Rightarrow> p);
               inputs = splitParams params
           in case getCanonicalForm2 name (map Some inputs) of
                Inl e \<Rightarrow> Inl e
              | Inr canonicalForm \<Rightarrow>
                  Inr (st\<lparr>functions := functions st @
                        [\<lparr>line = index + 1, text = canonicalForm,
                          signature = getKeccak256 keccak256 canonicalForm\<rparr>]\<rparr>)))"

definition matchError2 ::
  "(jsstring \<Rightarrow> jsstring) \<Rightarrow> nat \<Rightarrow> jsstring \<Rightarrow> sigs2 \<Rightarrow> error + sigs2" where
  "matchError2 keccak256 index ln st =
     (case match ln errorRe of
        None \<Rightarrow> Inr st
      | Some errorMatch \<Rightarrow>
          (let name = toStr (errorMatch 1);
               params = (case errorMatch 2 of None \<Rightarrow> [] | Some p \<Rightarrow> p);
               inputs = splitParams params
           in case getCanonicalForm2 name (map Some inputs) of
                Inl e \<Rightarrow> Inl e
              | Inr canonicalForm \<Rightarrow>
                  Inr (st\<lparr>errors := errors st @
                        [\<lparr>line = index + 1, text = canonicalForm,
                          signature = getKeccak256 keccak256 canonicalForm\<rparr>]\<rparr>)))"

definition matchRequire2 ::
  "(jsstring \<Rightarrow> jsstring) \<Rightarrow> nat \<Rightarrow> jsstring \<Rightarrow> sigs2 \<Rightarrow> error + sigs2" where
  "matchRequire2 keccak256 index ln st =
     (case match ln requireRe of
        None \<Rightarrow> Inr st
      | Some requireMatch \<Rightarrow>
          (let condition = toStr (requireMatch 1);
               errorMessage = toStr (requireMatch 2);
               errorSignature = getKeccak256 keccak256 errorMessage
           in Inr (st\<lparr>requires := requires st @
                     [\<lparr>line = index + 1,
                       text = requireText condition errorMessage,
                       signature = errorSignature\<rparr>]\<rparr>)))"

text \<open>Detect public state variables for getter generation.\<close>

definition matchPublicVar ::
  "(jsstring \<Rightarrow> jsstring) \<Rightarrow> jsstring \<Rightarrow> sigs2 \<Rightarrow> error + sigs2" where
  "matchPublicVar keccak256 ln st =
     (case match ln publicRe of
        None \<Rightarrow> Inr st
      | Some publicVarMatch \<Rightarrow>
          (case match ln varRe of
             None \<Rightarrow> Inr st
           | Some varMatch \<Rightarrow>
               (case getCanonicalForm2 (toStr (varMatch 2)) [varMatch 1] of
                  Inl e \<Rightarrow> Inl e
                | Inr canonicalForm \<Rightarrow>
                    Inr (st\<lparr>getters := getters st @
                          [\<lparr>gtext = canonicalForm,
                            gsignature = getKeccak256 keccak256 canonicalForm\<rparr>]\<rparr>))))"

definition bindE :: "error + 'a \<Rightarrow> ('a \<Rightarrow> error + 'b) \<Rightarrow> error + 'b" where
  "bindE x f = (case x of Inl e \<Rightarrow> Inl e | Inr v \<Rightarrow> f v)"

definition processLine2 ::
  "(jsstring \<Rightarrow> jsstring) \<Rightarrow> sigs2 \<Rightarrow> nat \<times> jsstring \<Rightarrow> error + sigs2" where
  "processLine2 keccak256 st il =
     bindE (bindE (bindE (matchFunction2 keccak256 (fst il) (snd il) st)
                    (matchError2 keccak256 (fst il) (snd il)))
             (matchRequire2 keccak256 (fst il) (snd il)))
       (matchPublicVar keccak256 (snd il))"

fun forEachE :: "('s \<Rightarrow> 'a \<Rightarrow> error + 's) \<Rightarrow> 's \<Rightarrow> 'a list \<Rightarrow> error + 's" where
  "forEachE f st [] = Inr st"
| "forEachE f st (x # xs) = (case f st x of Inl e \<Rightarrow> Inl e | Inr st' \<Rightarrow> forEachE f st' xs)"

definition noSigs2 :: sigs2 where
  "noSigs2 = \<lparr>functions = [], errors = [], requires = [], getters = []\<rparr>"

definition calculateSignatures2 :: "(jsstring \<Rightarrow> jsstring) \<Rightarrow> jsstring \<Rightarrow> error + sigs2" where
  "calculateSignatures2 keccak256 source =
     forEachE (processLine2 keccak256) noSigs2 (enumerate 0 (split 0x0A source))"

section \<open>Notions used in the statements\<close>

text \<open>The record that a match of the function or of the error rule appends.\<close>

definition signatureEntry :: "(jsstring \<Rightarrow> jsstring) \<Rightarrow> nat \<Rightarrow> captures \<Rightarrow> entry" where
  "signatureEntry k i m =
     \<lparr>line = i + 1,
      text = getCanonicalForm (toStr (m 1)) (splitParams (orEmpty (m 2))),
      signature = getKeccak256 k (getCanonicalForm (toStr (m 1)) (splitParams (orEmpty (m 2))))\<rparr>"

text \<open>The record that a match of the require rule appends.\<close>

definition requireEntry :: "(jsstring \<Rightarrow> jsstring) \<Rightarrow> nat \<Rightarrow> captures \<Rightarrow> entry" where
  "requireEntry k i m =
     \<lparr>line = i + 1,
      text = requireText (toStr (m 1)) (toStr (m 2)),
      signature = getKeccak256 k (toStr (m 2))\<rparr>"

text \<open>Nothing for no match, one record for a match.\<close>

definition optList :: "'a option \<Rightarrow> ('a \<Rightarrow> 'b) \<Rightarrow> 'b list" where
  "optList v f = (case v of None \<Rightarrow> [] | Some m \<Rightarrow> [f m])"

text \<open>
  The format of the library's hash, \<^verbatim>\<open>0x\<close> and 64 lower-case hexadecimal digits, and
  of a selector, \<^verbatim>\<open>0x\<close> and 8 of them.
\<close>

definition isLowerHex :: "cu \<Rightarrow> bool" where
  "isLowerHex c \<longleftrightarrow> (0x30 \<le> c \<and> c \<le> 0x39) \<or> (0x61 \<le> c \<and> c \<le> 0x66)"

definition isKeccakHex :: "jsstring \<Rightarrow> bool" where
  "isKeccakHex h \<longleftrightarrow> take 2 h = js ''0x'' \<and> length h = 66 \<and> list_all isLowerHex (drop 2 h)"

definition isSelector :: "jsstring \<Rightarrow> bool" where
  "isSelector h \<longleftrightarrow> take 2 h = js ''0x'' \<and> length h = 10 \<and> list_all isLowerHex (drop 2 h)"

text \<open>All the digests of the records of the second script are selectors.\<close>

definition selectors2 :: "sigs2 \<Rightarrow> bool" where
  "selectors2 st \<longleftrightarrow>
     list_all (\<lambda>r. isSelector (signature r)) (functions st @ errors st @ requires st) \<and>
     list_all (\<lambda>g. isSelector (gsignature g)) (getters st)"

text \<open>
  The digests of the function, error and getter records of the second script are the
  hashes of their texts, cut to 10 code units.
\<close>

definition digests2 :: "(jsstring \<Rightarrow> jsstring) \<Rightarrow> sigs2 \<Rightarrow> bool" where
  "digests2 k st \<longleftrightarrow>
     list_all (\<lambda>r. signature r = take 10 (k (text r))) (functions st @ errors st) \<and>
     list_all (\<lambda>g. gsignature g = take 10 (k (gtext g))) (getters st)"

text \<open>
  A stand-in for the library's hash in the concrete instances below: it has the
  format of the hash and depends on its argument, and that is all it has of it.
\<close>

definition sampleHash :: "jsstring \<Rightarrow> jsstring" where
  "sampleHash t =
     js ''0x'' @ map (\<lambda>c. js ''0123456789abcdef'' ! (unat c mod 16)) (take 64 (t @ replicate 64 0))"

text \<open>
  For the lemmas on the matcher: the code unit before the rest once \<open>w\<close> is read; a
  quantifier on \<open>c\<close> cannot go on at \<open>s\<close>; the first match of \<open>e\<close> leaves the
  captures \<open>cs'\<close>.
\<close>

definition lastp :: "cu option \<Rightarrow> jsstring \<Rightarrow> cu option" where
  "lastp p w = (if w = [] then p else Some (last w))"

definition stops :: "cclass \<Rightarrow> jsstring \<Rightarrow> bool" where
  "stops c s = (case s of [] \<Rightarrow> True | x # _ \<Rightarrow> \<not> cmatch c x)"

definition wins :: "regex \<Rightarrow> cu option \<Rightarrow> jsstring \<Rightarrow> captures \<Rightarrow> captures \<Rightarrow> bool" where
  "wins e p r cs cs' \<longleftrightarrow> (\<exists>p' r' ys. ms e p r cs = (p', r', cs') # ys)"

text \<open>
  The capture groups of an expression; an expression whose matches define the group
  \<open>k\<close>; an expression that matches only where the code unit \<open>d\<close> is yet to come.
\<close>

primrec groups :: "regex \<Rightarrow> nat set" where
  "groups Eps = {}"
| "groups (Atom c) = {}"
| "groups (Star c) = {}"
| "groups (Plus c) = {}"
| "groups (LazyStar c) = {}"
| "groups (Opt e) = groups e"
| "groups (Group k e) = insert k (groups e)"
| "groups (Seq a b) = groups a \<union> groups b"
| "groups Bound = {}"
| "groups End = {}"

definition setsGroup :: "nat \<Rightarrow> regex \<Rightarrow> bool" where
  "setsGroup k e \<longleftrightarrow>
     (\<forall>p r cs p' r' cs'. (p', r', cs') \<in> set (ms e p r cs) \<longrightarrow> cs' k \<noteq> None)"

definition needs :: "cu \<Rightarrow> regex \<Rightarrow> bool" where
  "needs d e \<longleftrightarrow> (\<forall>p r cs. ms e p r cs \<noteq> [] \<longrightarrow> d \<in> set r)"

text \<open>
  The text \<open>w\<close> stands at the start of \<open>r\<close> as a word of its own: the code unit
  before it (\<open>p\<close>) and the code unit after it are no word characters.  A string contains
  the word \<open>w\<close> if \<open>w\<close> stands so at one of its positions.
\<close>

definition wordAt :: "jsstring \<Rightarrow> cu option \<Rightarrow> jsstring \<Rightarrow> bool" where
  "wordAt w p r \<longleftrightarrow>
     take (length w) r = w \<and> \<not> isWordBefore p \<and> \<not> isWordAfter (drop (length w) r)"

fun wordFrom :: "jsstring \<Rightarrow> cu option \<Rightarrow> jsstring \<Rightarrow> bool" where
  "wordFrom w p [] = wordAt w p []"
| "wordFrom w p (x # xs) = (wordAt w p (x # xs) \<or> wordFrom w (Some x) xs)"

definition containsWord :: "jsstring \<Rightarrow> jsstring \<Rightarrow> bool" where
  "containsWord w s = wordFrom w None s"

text \<open>
  The second script, told by the matches of a line.  The fragments between the commas
  of the parameter list that a match of the function or of the error rule captured; a
  line is \<open>typed\<close> if the pattern for types matches every such fragment of it, which is
  when the second script's \<^verbatim>\<open>getCanonicalForm\<close> indexes no \<^verbatim>\<open>null\<close>; the type that the second
  script makes of a fragment (the first group alone); the record that a match of the
  function or of the error rule appends there, and the getter that a match of the
  assignment pattern appends.
\<close>

definition fragments :: "captures option \<Rightarrow> jsstring list" where
  "fragments v = (case v of None \<Rightarrow> [] | Some m \<Rightarrow> splitParams (orEmpty (m 2)))"

definition typed :: "jsstring \<Rightarrow> bool" where
  "typed ln \<longleftrightarrow>
     list_all (\<lambda>input. matched (match (trim input) paramRe))
       (fragments (match ln functionRe) @ fragments (match ln errorRe))"

definition typeOf2 :: "jsstring \<Rightarrow> jsstring" where
  "typeOf2 input = (case match (trim input) paramRe of None \<Rightarrow> [] | Some m \<Rightarrow> orEmpty (m 1))"

definition signatureEntry2 :: "(jsstring \<Rightarrow> jsstring) \<Rightarrow> nat \<Rightarrow> captures \<Rightarrow> entry" where
  "signatureEntry2 k i m =
     \<lparr>line = i + 1,
      text = toStr (m 1) @ js ''('' @
             join (js '','') (map typeOf2 (splitParams (orEmpty (m 2)))) @ js '')'',
      signature = getKeccak256 k (toStr (m 1) @ js ''('' @
             join (js '','') (map typeOf2 (splitParams (orEmpty (m 2)))) @ js '')'')\<rparr>"

definition getterEntry :: "(jsstring \<Rightarrow> jsstring) \<Rightarrow> captures \<Rightarrow> getter" where
  "getterEntry k m =
     \<lparr>gtext = toStr (m 2) @ js ''('' @ toStr (m 1) @ js '')'',
      gsignature = getKeccak256 k (toStr (m 2) @ js ''('' @ toStr (m 1) @ js '')'')\<rparr>"

text \<open>
  The require records \<open>rs\<close> of a file with the lines \<open>lines\<close>: the require rule matches
  the line of each record; the text of the record is the statement put together from the
  two captures of that match, and its signature is the hash of the second capture, the
  message, cut to 10 code units.
\<close>

definition requireDigests :: "(jsstring \<Rightarrow> jsstring) \<Rightarrow> jsstring list \<Rightarrow> entry list \<Rightarrow> bool" where
  "requireDigests k lines rs \<longleftrightarrow>
     list_all (\<lambda>r. case match (lines ! (line r - 1)) requireRe of
                  None \<Rightarrow> False
                | Some m \<Rightarrow> text r = requireText (toStr (m 1)) (toStr (m 2)) \<and>
                           signature r = take 10 (k (toStr (m 2)))) rs"

text \<open>For the lemmas on the matcher: the expression \<open>e\<close> has a match at the start of \<open>r\<close>.\<close>

definition can :: "regex \<Rightarrow> jsstring \<Rightarrow> bool" where
  "can e r \<longleftrightarrow> (\<forall>p cs. ms e p r cs \<noteq> [])"

section \<open>The matcher on inputs of a known shape\<close>

lemma lastp_simps [simp]: "lastp p [] = p" "lastp p (x # xs) = lastp (Some x) xs"
  by (simp_all add: lastp_def)

lemma lastp_append [simp]: "lastp p (xs @ ys) = lastp (lastp p xs) ys"
  by (induction xs arbitrary: p) simp_all

lemma star_greedy_longest:
  "list_all (cmatch c) w \<Longrightarrow> stops c s \<Longrightarrow> \<exists>ys. star_greedy c p (w @ s) = (lastp p w, s) # ys"
proof (induction w arbitrary: p)
  case Nil
  then show ?case by (cases s) (simp_all add: stops_def)
next
  case (Cons a w)
  then obtain ys where "star_greedy c (Some a) (w @ s) = (lastp (Some a) w, s) # ys"
    by fastforce
  with Cons.prems show ?case by simp
qed

lemma ms_Seq_Star:
  assumes "list_all (cmatch c) w" "stops c s"
  shows "\<exists>ys. ms (Seq (Star c) e) p (w @ s) cs = ms e (lastp p w) s cs @ ys"
proof -
  from star_greedy_longest [OF assms] obtain ys where "star_greedy c p (w @ s) = (lastp p w, s) # ys"
    by blast
  then show ?thesis by simp
qed

lemma ms_Seq_Plus:
  assumes "w \<noteq> []" "list_all (cmatch c) w" "stops c s"
  shows "\<exists>ys. ms (Seq (Plus c) e) p (w @ s) cs = ms e (lastp p w) s cs @ ys"
proof -
  from assms obtain a w' where w: "w = a # w'" "cmatch c a" "list_all (cmatch c) w'"
    by (cases w) auto
  from star_greedy_longest [OF w(3) assms(3)] obtain ys
    where "star_greedy c (Some a) (w' @ s) = (lastp (Some a) w', s) # ys"
    by blast
  with w show ?thesis by simp
qed

lemma ms_Seq_Group_Plus:
  assumes "w \<noteq> []" "list_all (cmatch c) w" "stops c s"
  shows "\<exists>ys. ms (Seq (Group k (Plus c)) e) p (w @ s) cs = ms e (lastp p w) s (cs(k \<mapsto> w)) @ ys"
proof -
  from assms obtain a w' where w: "w = a # w'" "cmatch c a" "list_all (cmatch c) w'"
    by (cases w) auto
  from star_greedy_longest [OF w(3) assms(3)] obtain ys
    where "star_greedy c (Some a) (w' @ s) = (lastp (Some a) w', s) # ys"
    by blast
  with w show ?thesis by simp
qed

lemma lazy_skip:
  assumes "\<And>p' x r'. x \<noteq> d \<Longrightarrow> H (p', x # r') = []"
  shows "list_all (cmatch c) w \<Longrightarrow> d \<notin> set w \<Longrightarrow>
    \<exists>ys. concat (map H (star_lazy c p (w @ d # s))) = H (lastp p w, d # s) @ ys"
proof (induction w arbitrary: p)
  case Nil
  show ?case by simp
next
  case (Cons a w)
  from Cons.prems have "a \<noteq> d" by auto
  then have "H (p, a # w @ d # s) = []" by (rule assms)
  with Cons show ?case by simp
qed

lemma ms_Seq_Group_Lazy:
  assumes "list_all (cmatch c) w" "d \<notin> set w"
    and "\<And>p' x r' cs'. x \<noteq> d \<Longrightarrow> ms e p' (x # r') cs' = []"
  shows "\<exists>ys. ms (Seq (Group k (LazyStar c)) e) p (w @ d # s) cs =
           ms e (lastp p w) (d # s) (cs(k \<mapsto> w)) @ ys"
proof -
  let ?r0 = "w @ d # s"
  let ?H = "\<lambda>(p', r'). ms e p' r' (cs(k \<mapsto> take (length ?r0 - length r') ?r0))"
  have "\<exists>ys. concat (map ?H (star_lazy c p (w @ d # s))) = ?H (lastp p w, d # s) @ ys"
    by (rule lazy_skip [OF _ assms(1,2)]) (simp add: assms(3))
  moreover have "ms (Seq (Group k (LazyStar c)) e) p ?r0 cs = concat (map ?H (star_lazy c p ?r0))"
    by (simp add: comp_def case_prod_unfold)
  ultimately show ?thesis by simp
qed

lemma js_simps: "js [] = []" "js (c # s) = of_char c # js s"
  by (simp_all add: js_def)

lemma length_js [simp]: "length (js s) = length s"
  by (simp add: js_def)

lemma cat_simps: "cat [] = Eps" "cat (e # es) = Seq e (cat es)"
  by (simp_all add: cat_def)

lemma lit_simps: "lit [] = Eps" "lit (c # s) = Seq (Atom (Lit (of_char c))) (lit s)"
  by (simp_all add: lit_def cat_def)

lemma concat_map_concat:
  "concat (map f (concat (map g xs))) = concat (map (\<lambda>x. concat (map f (g x))) xs)"
  by (induction xs) simp_all

lemma ms_Seq_assoc: "ms (Seq (Seq a b) c) p r cs = ms (Seq a (Seq b c)) p r cs"
  by (simp add: concat_map_concat case_prod_unfold)

lemma ms_Seq_Eps: "ms (Seq Eps e) p r cs = ms e p r cs"
  by simp

lemma ms_Seq_lit:
  "ms (Seq (lit s) e) p r cs =
     (if take (length s) r = js s then ms e (lastp p (js s)) (drop (length s) r) cs else [])"
proof (induction s arbitrary: p r)
  case Nil
  show ?case by (simp add: lit_simps js_simps)
next
  case (Cons c s)
  have "ms (Seq (lit (c # s)) e) p r cs = ms (Seq (Atom (Lit (of_char c))) (Seq (lit s) e)) p r cs"
    by (simp only: lit_simps ms_Seq_assoc)
  also have "\<dots> = (if take (length (c # s)) r = js (c # s)
                    then ms e (lastp p (js (c # s))) (drop (length (c # s)) r) cs else [])"
  proof (cases r)
    case Nil
    then show ?thesis by (simp add: js_simps)
  next
    case (Cons x xs)
    show ?thesis
      unfolding Cons using Cons.IH [of "Some x" xs] by (auto simp: js_simps)
  qed
  finally show ?case .
qed

lemma ms_Seq_lit_here: "ms (Seq (lit s) e) p (js s @ r) cs = ms e (lastp p (js s)) r cs"
  unfolding ms_Seq_lit by simp

lemma ms_Seq_lit_other: "x \<noteq> of_char c \<Longrightarrow> ms (Seq (lit (c # s)) e) p (x # xs) cs = []"
  unfolding ms_Seq_lit by (simp add: js_simps)

lemma wins_Eps: "wins Eps p r cs cs"
  by (simp add: wins_def)

lemma wins_Star_Eps: "wins (Seq (Star c) Eps) p r cs cs"
proof -
  have "star_greedy c p r \<noteq> []"
    by (cases r) simp_all
  then obtain p' r' ys where "star_greedy c p r = (p', r') # ys"
    by (cases "star_greedy c p r") auto
  then show ?thesis by (simp add: wins_def)
qed

lemma wins_prefix: "ms a p r cs = ms b p' r' cs1 @ ys \<Longrightarrow> wins b p' r' cs1 cs' \<Longrightarrow> wins a p r cs cs'"
  by (auto simp: wins_def)

lemma wins_lit: "wins e (lastp p (js s)) r cs cs' \<Longrightarrow> wins (Seq (lit s) e) p (js s @ r) cs cs'"
  by (simp only: wins_def ms_Seq_lit_here)

lemma wins_Star:
  "list_all (cmatch c) w \<Longrightarrow> stops c s \<Longrightarrow> wins e (lastp p w) s cs cs' \<Longrightarrow>
   wins (Seq (Star c) e) p (w @ s) cs cs'"
  using ms_Seq_Star [of c w s e p cs] by (auto intro: wins_prefix)

lemma wins_Plus:
  "w \<noteq> [] \<Longrightarrow> list_all (cmatch c) w \<Longrightarrow> stops c s \<Longrightarrow> wins e (lastp p w) s cs cs' \<Longrightarrow>
   wins (Seq (Plus c) e) p (w @ s) cs cs'"
  using ms_Seq_Plus [of w c s e p cs] by (auto intro: wins_prefix)

lemma wins_Group_Plus:
  "w \<noteq> [] \<Longrightarrow> list_all (cmatch c) w \<Longrightarrow> stops c s \<Longrightarrow>
   wins e (lastp p w) s (cs(k \<mapsto> w)) cs' \<Longrightarrow>
   wins (Seq (Group k (Plus c)) e) p (w @ s) cs cs'"
  using ms_Seq_Group_Plus [of w c s k e p cs] by (auto intro: wins_prefix)

lemma wins_Group_Lazy:
  assumes "list_all (cmatch c) w" "of_char d \<notin> set w"
    and "wins (Seq (lit (d # ds)) e) (lastp p w) (js (d # ds) @ s) (cs(k \<mapsto> w)) cs'"
  shows "wins (Seq (Group k (LazyStar c)) (Seq (lit (d # ds)) e)) p (w @ js (d # ds) @ s) cs cs'"
proof -
  have "\<exists>ys. ms (Seq (Group k (LazyStar c)) (Seq (lit (d # ds)) e)) p (w @ of_char d # js ds @ s) cs =
           ms (Seq (lit (d # ds)) e) (lastp p w) (of_char d # js ds @ s) (cs(k \<mapsto> w)) @ ys"
    by (rule ms_Seq_Group_Lazy [OF assms(1,2)]) (rule ms_Seq_lit_other)
  then obtain ys where
    eq: "ms (Seq (Group k (LazyStar c)) (Seq (lit (d # ds)) e)) p (w @ of_char d # js ds @ s) cs =
           ms (Seq (lit (d # ds)) e) (lastp p w) (of_char d # js ds @ s) (cs(k \<mapsto> w)) @ ys"
    by blast
  have "wins (Seq (lit (d # ds)) e) (lastp p w) (of_char d # js ds @ s) (cs(k \<mapsto> w)) cs'"
    using assms(3) by (simp only: js_simps append_Cons)
  from wins_prefix [OF eq this] show ?thesis
    by (simp only: js_simps append_Cons)
qed

lemma search_skip:
  assumes "\<And>p x xs. x \<in> set pre \<Longrightarrow> ms e p (x # xs) (\<lambda>_. None) = []"
  shows "search e p (pre @ r) = search e (lastp p pre) r"
  using assms by (induction pre arbitrary: p) simp_all

lemma search_wins:
  assumes "wins e p r (\<lambda>_. None) cs'"
  shows "\<exists>whole. search e p r = Some (cs'(0 \<mapsto> whole))"
  using assms by (cases r) (auto simp: wins_def)

lemma word_not_space: "isWordChar c \<Longrightarrow> \<not> isSpaceChar c"
  by (auto simp: isWordChar_def isSpaceChar_def isLineTerminator_def word_le_nat_alt)

lemma space_not_word: "isSpaceChar c \<Longrightarrow> \<not> isWordChar c"
  using word_not_space by blast

lemma stops_word_space: "w \<noteq> [] \<Longrightarrow> list_all isWordChar w \<Longrightarrow> stops SpaceC (w @ s)"
  by (cases w) (auto simp: stops_def word_not_space)

lemma stops_space_word: "w \<noteq> [] \<Longrightarrow> list_all isSpaceChar w \<Longrightarrow> stops WordC (w @ s)"
  by (cases w) (auto simp: stops_def dest: word_not_space)

lemma cmatch_eqs:
  "cmatch SpaceC = isSpaceChar" "cmatch WordC = isWordChar"
  "cmatch Dot = (\<lambda>c. \<not> isLineTerminator c)"
  by (rule ext, simp)+

lemma match_function_shape:
  assumes pre: "of_char CHR ''f'' \<notin> set pre"
    and ws1: "ws1 \<noteq> []" "list_all isSpaceChar ws1"
    and name: "name \<noteq> []" "list_all isWordChar name"
    and ws2: "list_all isSpaceChar ws2"
    and params: "list_all (\<lambda>c. \<not> isLineTerminator c) params" "of_char CHR '')'' \<notin> set params"
  shows "\<exists>m. match (pre @ js ''function'' @ ws1 @ name @ ws2 @ js ''('' @ params @ js '')'' @ post)
               functionRe = Some m \<and> m 1 = Some name \<and> m 2 = Some params"
proof -
  let ?rest = "js ''function'' @ ws1 @ name @ ws2 @ js ''('' @ params @ js '')'' @ post"
  let ?cs = "(\<lambda>_. None)(1 \<mapsto> name, 2 \<mapsto> params)"
  have skip: "search functionRe None (pre @ ?rest) = search functionRe (lastp None pre) ?rest"
  proof (rule search_skip)
    fix p x xs
    assume "x \<in> set pre"
    with pre have "x \<noteq> of_char CHR ''f''" by auto
    then show "ms functionRe p (x # xs) (\<lambda>_. None) = []"
      unfolding functionRe_def cat_simps by (rule ms_Seq_lit_other)
  qed
  have s1: "stops SpaceC (name @ ws2 @ js ''('' @ params @ js '')'' @ post)"
    using name by (rule stops_word_space)
  have s2: "stops WordC (ws2 @ js ''('' @ params @ js '')'' @ post)"
  proof (cases ws2)
    case Nil
    then show ?thesis by (simp add: stops_def js_simps isWordChar_def)
  next
    case (Cons a list)
    with ws2 show ?thesis by (simp add: stops_def space_not_word)
  qed
  have s3: "stops SpaceC (js ''('' @ params @ js '')'' @ post)"
    by (simp add: stops_def js_simps isSpaceChar_def isLineTerminator_def)
  note c = ws1(2) name(2) ws2 params(1)
  note c = c [folded cmatch_eqs]
  have "wins functionRe (lastp None pre) ?rest (\<lambda>_. None) ?cs"
    unfolding functionRe_def cat_simps
    by (intro wins_lit wins_Plus wins_Group_Plus wins_Star wins_Group_Lazy wins_Star_Eps
        c ws1 name s1 s2 s3 params)
  from search_wins [OF this] skip show ?thesis
    by (auto simp: match_def)
qed

lemma match_require_shape:
  assumes pre: "of_char CHR ''r'' \<notin> set pre"
    and cond: "list_all (\<lambda>c. \<not> isLineTerminator c) cond" "of_char CHR '','' \<notin> set cond"
    and ws: "list_all isSpaceChar ws"
    and msg: "list_all (\<lambda>c. \<not> isLineTerminator c) msg" "of_char dq \<notin> set msg"
  shows "\<exists>m. match (pre @ js ''require('' @ cond @ js '','' @ ws @ js [dq] @ msg @ js (dq # '');'') @ post)
               requireRe = Some m \<and> m 1 = Some cond \<and> m 2 = Some msg"
proof -
  let ?rest = "js ''require('' @ cond @ js '','' @ ws @ js [dq] @ msg @ js (dq # '');'') @ post"
  let ?cs = "(\<lambda>_. None)(1 \<mapsto> cond, 2 \<mapsto> msg)"
  have skip: "search requireRe None (pre @ ?rest) = search requireRe (lastp None pre) ?rest"
  proof (rule search_skip)
    fix p x xs
    assume "x \<in> set pre"
    with pre have "x \<noteq> of_char CHR ''r''" by auto
    then show "ms requireRe p (x # xs) (\<lambda>_. None) = []"
      unfolding requireRe_def cat_simps by (rule ms_Seq_lit_other)
  qed
  have s1: "stops SpaceC (js [dq] @ msg @ js (dq # '');'') @ post)"
    by (simp add: stops_def js_simps dq_def isSpaceChar_def isLineTerminator_def)
  note c = cond(1) ws msg(1)
  note c = c [folded cmatch_eqs]
  have "wins requireRe (lastp None pre) ?rest (\<lambda>_. None) ?cs"
    unfolding requireRe_def cat_simps
    by (intro wins_lit wins_Group_Lazy wins_Star wins_Star_Eps c s1 cond msg)
  from search_wins [OF this] skip show ?thesis
    by (auto simp: match_def)
qed

section \<open>What a match has read\<close>

lemma star_greedy_sound:
  "(p', r') \<in> set (star_greedy c p r) \<Longrightarrow> \<exists>w. r = w @ r' \<and> list_all (cmatch c) w"
proof (induction r arbitrary: p)
  case Nil
  then show ?case by simp
next
  case (Cons x xs)
  show ?case
  proof (cases "(p', r') = (p, x # xs)")
    case True
    then show ?thesis by simp
  next
    case False
    with Cons.prems have x: "cmatch c x" and "(p', r') \<in> set (star_greedy c (Some x) xs)"
      by (auto split: if_splits)
    from Cons.IH [OF this(2)] obtain w where "xs = w @ r'" "list_all (cmatch c) w"
      by blast
    with x have "x # xs = (x # w) @ r' \<and> list_all (cmatch c) (x # w)" by simp
    then show ?thesis by blast
  qed
qed

lemma star_lazy_sound:
  "(p', r') \<in> set (star_lazy c p r) \<Longrightarrow> \<exists>w. r = w @ r' \<and> list_all (cmatch c) w"
proof (induction r arbitrary: p)
  case Nil
  then show ?case by simp
next
  case (Cons x xs)
  show ?case
  proof (cases "(p', r') = (p, x # xs)")
    case True
    then show ?thesis by simp
  next
    case False
    with Cons.prems have x: "cmatch c x" and "(p', r') \<in> set (star_lazy c (Some x) xs)"
      by (auto split: if_splits)
    from Cons.IH [OF this(2)] obtain w where "xs = w @ r'" "list_all (cmatch c) w"
      by blast
    with x have "x # xs = (x # w) @ r' \<and> list_all (cmatch c) (x # w)" by simp
    then show ?thesis by blast
  qed
qed

lemma ms_Plus_sound:
  assumes "(p', r', cs') \<in> set (ms (Plus c) p r cs)"
  shows "\<exists>w. r = w @ r' \<and> w \<noteq> [] \<and> list_all (cmatch c) w \<and> cs' = cs"
proof (cases r)
  case Nil
  with assms show ?thesis by simp
next
  case (Cons x xs)
  with assms have x: "cmatch c x" and "(p', r') \<in> set (star_greedy c (Some x) xs)" and "cs' = cs"
    by (auto split: if_splits)
  from star_greedy_sound [OF this(2)] obtain w where "xs = w @ r'" "list_all (cmatch c) w"
    by blast
  with x Cons \<open>cs' = cs\<close> have "r = (x # w) @ r' \<and> x # w \<noteq> [] \<and> list_all (cmatch c) (x # w) \<and> cs' = cs"
    by simp
  then show ?thesis by blast
qed

lemma ms_Seq_elim:
  assumes "st \<in> set (ms (Seq a b) p r cs)"
  obtains p1 r1 cs1 where "(p1, r1, cs1) \<in> set (ms a p r cs)" "st \<in> set (ms b p1 r1 cs1)"
  using assms by auto

lemma ms_suffix: "(p', r', cs') \<in> set (ms e p r cs) \<Longrightarrow> \<exists>u. r = u @ r'"
proof (induction e arbitrary: p r cs p' r' cs')
  case Eps
  then show ?case by simp
next
  case (Atom c)
  then show ?case by (cases r) (auto split: if_splits)
next
  case (Star c)
  then show ?case by (auto dest: star_greedy_sound)
next
  case (Plus c)
  then show ?case by (blast dest: ms_Plus_sound)
next
  case (LazyStar c)
  then show ?case by (auto dest: star_lazy_sound)
next
  case (Opt e)
  then show ?case by auto
next
  case (Group k e)
  then show ?case by auto
next
  case (Seq a b)
  from Seq.prems obtain p1 r1 cs1
    where 1: "(p1, r1, cs1) \<in> set (ms a p r cs)" and 2: "(p', r', cs') \<in> set (ms b p1 r1 cs1)"
    by (rule ms_Seq_elim)
  from Seq.IH(1) [OF 1] Seq.IH(2) [OF 2] show ?case by auto
next
  case Bound
  then show ?case by (auto split: if_splits)
next
  case End
  then show ?case by (auto split: if_splits)
qed

lemma ms_caps_other:
  "(p', r', cs') \<in> set (ms e p r cs) \<Longrightarrow> k \<notin> groups e \<Longrightarrow> cs' k = cs k"
proof (induction e arbitrary: p r cs p' r' cs')
  case Eps
  then show ?case by simp
next
  case (Atom c)
  then show ?case by (cases r) (auto split: if_splits)
next
  case (Star c)
  then show ?case by auto
next
  case (Plus c)
  then show ?case by (blast dest: ms_Plus_sound)
next
  case (LazyStar c)
  then show ?case by auto
next
  case (Opt e)
  then show ?case by auto
next
  case (Group j e)
  then show ?case by auto
next
  case (Seq a b)
  from Seq.prems(1) obtain p1 r1 cs1
    where 1: "(p1, r1, cs1) \<in> set (ms a p r cs)" and 2: "(p', r', cs') \<in> set (ms b p1 r1 cs1)"
    by (rule ms_Seq_elim)
  from Seq.prems(2) Seq.IH(1) [OF 1] Seq.IH(2) [OF 2] show ?case by simp
next
  case Bound
  then show ?case by (auto split: if_splits)
next
  case End
  then show ?case by (auto split: if_splits)
qed

lemma ms_Group_Plus_sound:
  assumes "(p', r', cs') \<in> set (ms (Group k (Plus c)) p r cs)"
  shows "\<exists>w. cs' k = Some w \<and> w \<noteq> [] \<and> list_all (cmatch c) w"
proof -
  from assms obtain cs1 where 1: "(p', r', cs1) \<in> set (ms (Plus c) p r cs)"
    and 2: "cs' = cs1(k \<mapsto> take (length r - length r') r)"
    by auto
  from ms_Plus_sound [OF 1] obtain w where "r = w @ r'" "w \<noteq> []" "list_all (cmatch c) w"
    by blast
  with 2 show ?thesis by simp
qed

lemma search_sound:
  "search e p r = Some m \<Longrightarrow>
   \<exists>p0 r0 u p' r' cs. r = u @ r0 \<and> (p', r', cs) \<in> set (ms e p0 r0 (\<lambda>_. None)) \<and>
      m = cs(0 \<mapsto> take (length r0 - length r') r0)"
proof (induction r arbitrary: p)
  case Nil
  then obtain p' r' cs ys where "ms e p [] (\<lambda>_. None) = (p', r', cs) # ys" "m = cs(0 \<mapsto> [])"
    by (auto split: list.splits)
  then have F: "[] = [] @ [] \<and> (p', r', cs) \<in> set (ms e p [] (\<lambda>_. None)) \<and>
      m = cs(0 \<mapsto> take (length ([]::jsstring) - length r') [])"
    by simp
  show ?case
    by (rule exI [of _ p], rule exI [of _ "[]"], rule exI [of _ "[]"],
        rule exI [of _ p'], rule exI [of _ r'], rule exI [of _ cs]) (rule F)
next
  case (Cons x xs)
  show ?case
  proof (cases "ms e p (x # xs) (\<lambda>_. None)")
    case Nil
    with Cons.prems have "search e (Some x) xs = Some m" by simp
    from Cons.IH [OF this] obtain p0 r0 u p' r' cs where
      "xs = u @ r0" "(p', r', cs) \<in> set (ms e p0 r0 (\<lambda>_. None))"
      "m = cs(0 \<mapsto> take (length r0 - length r') r0)"
      by blast
    then have F: "x # xs = (x # u) @ r0 \<and> (p', r', cs) \<in> set (ms e p0 r0 (\<lambda>_. None)) \<and>
      m = cs(0 \<mapsto> take (length r0 - length r') r0)"
      by simp
    show ?thesis
      by (rule exI [of _ p0], rule exI [of _ r0], rule exI [of _ "x # u"],
          rule exI [of _ p'], rule exI [of _ r'], rule exI [of _ cs]) (rule F)
  next
    case (Cons st ys)
    obtain p' r' cs where st: "st = (p', r', cs)" by (cases st)
    with Cons Cons.prems have F: "x # xs = [] @ (x # xs) \<and>
      (p', r', cs) \<in> set (ms e p (x # xs) (\<lambda>_. None)) \<and>
      m = cs(0 \<mapsto> take (length (x # xs) - length r') (x # xs))"
      by auto
    show ?thesis
      by (rule exI [of _ p], rule exI [of _ "x # xs"], rule exI [of _ "[]"],
          rule exI [of _ p'], rule exI [of _ r'], rule exI [of _ cs]) (rule F)
  qed
qed

lemma groups_lit [simp]: "groups (lit s) = {}"
  by (induction s) (simp_all add: lit_simps)

lemma setsGroup_Group: "k \<notin> groups b \<Longrightarrow> setsGroup k (Seq (Group k e) b)"
proof (unfold setsGroup_def, intro allI impI)
  fix p r cs p' r' cs'
  assume k: "k \<notin> groups b" and "(p', r', cs') \<in> set (ms (Seq (Group k e) b) p r cs)"
  then obtain p1 r1 cs1 where 1: "(p1, r1, cs1) \<in> set (ms (Group k e) p r cs)"
    and 2: "(p', r', cs') \<in> set (ms b p1 r1 cs1)"
    by (elim ms_Seq_elim)
  from 1 have "cs1 k \<noteq> None" by auto
  with ms_caps_other [OF 2 k] show "cs' k \<noteq> None" by simp
qed

lemma setsGroup_Seq: "setsGroup k b \<Longrightarrow> setsGroup k (Seq a b)"
proof (unfold setsGroup_def, intro allI impI)
  fix p r cs p' r' cs'
  assume b: "\<forall>p r cs p' r' cs'. (p', r', cs') \<in> set (ms b p r cs) \<longrightarrow> cs' k \<noteq> None"
    and "(p', r', cs') \<in> set (ms (Seq a b) p r cs)"
  then obtain p1 r1 cs1 where "(p', r', cs') \<in> set (ms b p1 r1 cs1)"
    by (elim ms_Seq_elim)
  with b show "cs' k \<noteq> None" by blast
qed

lemma search_setsGroup:
  assumes "setsGroup k e" "search e p r = Some m" "k \<noteq> 0"
  shows "m k \<noteq> None"
proof -
  from search_sound [OF assms(2)] obtain p0 r0 p' r' cs where
    "(p', r', cs) \<in> set (ms e p0 r0 (\<lambda>_. None))" "m = cs(0 \<mapsto> take (length r0 - length r') r0)"
    by blast
  with assms(1,3) show ?thesis unfolding setsGroup_def by auto
qed

text \<open>
  The groups that the scripts read are defined in every match: the conversion of an
  undefined capture (\<open>toStr\<close>) never sees one.
\<close>

lemma captures_defined:
  "match l functionRe = Some m \<Longrightarrow> m 1 \<noteq> None \<and> m 2 \<noteq> None"
  "match l errorRe = Some m \<Longrightarrow> m 1 \<noteq> None \<and> m 2 \<noteq> None"
  "match l requireRe = Some m \<Longrightarrow> m 1 \<noteq> None \<and> m 2 \<noteq> None"
  "match l varRe = Some m \<Longrightarrow> m 1 \<noteq> None \<and> m 2 \<noteq> None"
  "match l paramRe = Some m \<Longrightarrow> m 1 \<noteq> None"
proof -
  have f: "setsGroup 1 functionRe" "setsGroup 2 functionRe"
    unfolding functionRe_def cat_simps
    by (intro setsGroup_Seq setsGroup_Group; simp add: cat_simps)+
  have e: "setsGroup 1 errorRe" "setsGroup 2 errorRe"
    unfolding errorRe_def cat_simps
    by (intro setsGroup_Seq setsGroup_Group; simp add: cat_simps)+
  have r: "setsGroup 1 requireRe" "setsGroup 2 requireRe"
    unfolding requireRe_def cat_simps
    by (intro setsGroup_Seq setsGroup_Group; simp add: cat_simps)+
  have v: "setsGroup 1 varRe" "setsGroup 2 varRe"
    unfolding varRe_def cat_simps
    by (intro setsGroup_Seq setsGroup_Group; simp add: cat_simps)+
  have p: "setsGroup 1 paramRe"
    unfolding paramRe_def cat_simps
    by (intro setsGroup_Seq setsGroup_Group; simp add: cat_simps)
  show "match l functionRe = Some m \<Longrightarrow> m 1 \<noteq> None \<and> m 2 \<noteq> None"
    "match l errorRe = Some m \<Longrightarrow> m 1 \<noteq> None \<and> m 2 \<noteq> None"
    "match l requireRe = Some m \<Longrightarrow> m 1 \<noteq> None \<and> m 2 \<noteq> None"
    "match l varRe = Some m \<Longrightarrow> m 1 \<noteq> None \<and> m 2 \<noteq> None"
    "match l paramRe = Some m \<Longrightarrow> m 1 \<noteq> None"
    using f e r v p by (auto simp: match_def dest: search_setsGroup)
qed

section \<open>The records of a line and of a file\<close>

lemma matchFunction_fields:
  "functions (matchFunction k i l st) =
     functions st @ optList (match l functionRe) (signatureEntry k i)"
  "errors (matchFunction k i l st) = errors st"
  "requires (matchFunction k i l st) = requires st"
  by (simp_all add: matchFunction_def signatureEntry_def optList_def Let_def split: option.split)

lemma matchError_fields:
  "functions (matchError k i l st) = functions st"
  "errors (matchError k i l st) = errors st @ optList (match l errorRe) (signatureEntry k i)"
  "requires (matchError k i l st) = requires st"
  by (simp_all add: matchError_def signatureEntry_def optList_def Let_def split: option.split)

lemma matchRequire_fields:
  "functions (matchRequire k i l st) = functions st"
  "errors (matchRequire k i l st) = errors st"
  "requires (matchRequire k i l st) =
     requires st @ optList (match l requireRe) (requireEntry k i)"
  by (simp_all add: matchRequire_def requireEntry_def optList_def Let_def split: option.split)

lemma processLine_fields:
  "functions (processLine k st (i, l)) =
     functions st @ optList (match l functionRe) (signatureEntry k i)"
  "errors (processLine k st (i, l)) =
     errors st @ optList (match l errorRe) (signatureEntry k i)"
  "requires (processLine k st (i, l)) =
     requires st @ optList (match l requireRe) (requireEntry k i)"
  by (simp_all add: processLine_def matchFunction_fields matchError_fields matchRequire_fields)

lemma foldl_processLine_fields:
  "functions (foldl (processLine k) st ils) =
     functions st @ concat (map (\<lambda>(i, l). optList (match l functionRe) (signatureEntry k i)) ils)"
  "errors (foldl (processLine k) st ils) =
     errors st @ concat (map (\<lambda>(i, l). optList (match l errorRe) (signatureEntry k i)) ils)"
  "requires (foldl (processLine k) st ils) =
     requires st @ concat (map (\<lambda>(i, l). optList (match l requireRe) (requireEntry k i)) ils)"
  by (induction ils arbitrary: st; simp add: processLine_fields split: prod.split)+

lemma line_optList:
  "map line (concat (map (\<lambda>(i, l). optList (match l e) (signatureEntry k i)) ils)) =
   map (\<lambda>(i, l). i + 1) (filter (\<lambda>(i, l). matched (match l e)) ils)"
  "map line (concat (map (\<lambda>(i, l). optList (match l e) (requireEntry k i)) ils)) =
   map (\<lambda>(i, l). i + 1) (filter (\<lambda>(i, l). matched (match l e)) ils)"
  by (induction ils; auto simp: optList_def signatureEntry_def requireEntry_def matched_def
        split: option.split)+

lemma enumerate_snoc: "enumerate n (xs @ [x]) = enumerate n xs @ [(n + length xs, x)]"
  by (simp add: enumerate_append_eq)

lemma matched_lines:
  "map (\<lambda>(i, l). i + 1) (filter (\<lambda>(i, l). P l) (enumerate 0 xs)) =
   filter (\<lambda>n. P (xs ! (n - 1))) [1..<Suc (length xs)]"
proof (induction xs rule: rev_induct)
  case Nil
  show ?case by simp
next
  case (snoc x xs)
  have "filter (\<lambda>n. P ((xs @ [x]) ! (n - 1))) [1..<Suc (length xs)] =
        filter (\<lambda>n. P (xs ! (n - 1))) [1..<Suc (length xs)]"
    by (rule filter_cong) (auto simp: nth_append)
  with snoc show ?case
    by (simp add: enumerate_snoc)
qed

lemma isSelector_getKeccak256:
  assumes "\<And>t. isKeccakHex (k t)"
  shows "isSelector (getKeccak256 k t)"
  using assms [of t]
  by (auto simp: isKeccakHex_def isSelector_def getKeccak256_def drop_take list_all_iff
      dest: in_set_takeD)

lemma list_all_concat_map: "(\<And>x. list_all P (f x)) \<Longrightarrow> list_all P (concat (map f xs))"
  by (induction xs) simp_all

lemma selector_optList:
  assumes "\<And>t. isKeccakHex (k t)"
  shows "list_all (\<lambda>r. isSelector (signature r)) (optList v (signatureEntry k i))"
    and "list_all (\<lambda>r. isSelector (signature r)) (optList v (requireEntry k i))"
  by (simp_all add: optList_def signatureEntry_def requireEntry_def
      isSelector_getKeccak256 [OF assms] split: option.split)

lemma selectors_script1:
  assumes "\<And>t. isKeccakHex (k t)"
  shows "list_all (\<lambda>r. isSelector (signature r)) (functions (calculateSignatures k source))"
    and "list_all (\<lambda>r. isSelector (signature r)) (errors (calculateSignatures k source))"
    and "list_all (\<lambda>r. isSelector (signature r)) (requires (calculateSignatures k source))"
  unfolding calculateSignatures_def foldl_processLine_fields
  by (auto simp: noSigs_def case_prod_unfold intro!: list_all_concat_map selector_optList [OF assms])

lemma bindE_Inr: "bindE x f = Inr y \<longleftrightarrow> (\<exists>v. x = Inr v \<and> f v = Inr y)"
  by (cases x) (simp_all add: bindE_def)

lemma matchFunction2_Inr:
  assumes "matchFunction2 k i l st = Inr st'"
  shows "\<exists>c. st' = st\<lparr>functions := functions st @
           optList (match l functionRe)
             (\<lambda>m. \<lparr>line = i + 1, text = c, signature = getKeccak256 k c\<rparr>)\<rparr>"
  using assms
  by (auto simp: matchFunction2_def optList_def Let_def split: option.splits sum.splits)

lemma matchError2_Inr:
  assumes "matchError2 k i l st = Inr st'"
  shows "\<exists>c. st' = st\<lparr>errors := errors st @
           optList (match l errorRe)
             (\<lambda>m. \<lparr>line = i + 1, text = c, signature = getKeccak256 k c\<rparr>)\<rparr>"
  using assms
  by (auto simp: matchError2_def optList_def Let_def split: option.splits sum.splits)

lemma matchRequire2_eq:
  "matchRequire2 k i l st =
     Inr (st\<lparr>requires := requires st @ optList (match l requireRe) (requireEntry k i)\<rparr>)"
  by (auto simp: matchRequire2_def optList_def requireEntry_def Let_def split: option.splits)

lemma matchPublicVar_Inr:
  assumes "matchPublicVar k l st = Inr st'"
  shows "\<exists>c. st' = st\<lparr>getters := getters st @
           (if matched (match l publicRe) \<and> matched (match l varRe)
            then [\<lparr>gtext = c, gsignature = getKeccak256 k c\<rparr>] else [])\<rparr>"
  using assms
  by (auto simp: matchPublicVar_def matched_def split: option.splits sum.splits)

lemma processLine2_Inr:
  assumes "processLine2 k st (i, l) = Inr st'"
  shows "\<exists>c1 c2 c3.
     functions st' = functions st @ optList (match l functionRe)
        (\<lambda>m. \<lparr>line = i + 1, text = c1, signature = getKeccak256 k c1\<rparr>) \<and>
     errors st' = errors st @ optList (match l errorRe)
        (\<lambda>m. \<lparr>line = i + 1, text = c2, signature = getKeccak256 k c2\<rparr>) \<and>
     requires st' = requires st @ optList (match l requireRe) (requireEntry k i) \<and>
     getters st' = getters st @
        (if matched (match l publicRe) \<and> matched (match l varRe)
         then [\<lparr>gtext = c3, gsignature = getKeccak256 k c3\<rparr>] else [])"
proof -
  from assms obtain s1 s2 s3 where
    1: "matchFunction2 k i l st = Inr s1" and 2: "matchError2 k i l s1 = Inr s2" and
    3: "matchRequire2 k i l s2 = Inr s3" and 4: "matchPublicVar k l s3 = Inr st'"
    by (auto simp: processLine2_def bindE_Inr)
  from matchFunction2_Inr [OF 1] obtain c1 where
    s1: "s1 = st\<lparr>functions := functions st @ optList (match l functionRe)
             (\<lambda>m. \<lparr>line = i + 1, text = c1, signature = getKeccak256 k c1\<rparr>)\<rparr>" by blast
  from matchError2_Inr [OF 2] obtain c2 where
    s2: "s2 = s1\<lparr>errors := errors s1 @ optList (match l errorRe)
             (\<lambda>m. \<lparr>line = i + 1, text = c2, signature = getKeccak256 k c2\<rparr>)\<rparr>" by blast
  from 3 have s3: "s3 = s2\<lparr>requires := requires s2 @ optList (match l requireRe) (requireEntry k i)\<rparr>"
    by (simp add: matchRequire2_eq)
  from matchPublicVar_Inr [OF 4] obtain c3 where
    s4: "st' = s3\<lparr>getters := getters s3 @
           (if matched (match l publicRe) \<and> matched (match l varRe)
            then [\<lparr>gtext = c3, gsignature = getKeccak256 k c3\<rparr>] else [])\<rparr>" by blast
  show ?thesis
    apply (rule exI [of _ c1], rule exI [of _ c2], rule exI [of _ c3])
    apply (simp add: s1 s2 s3 s4)
    done
qed

lemma selectors2_step:
  assumes k: "\<And>t. isKeccakHex (k t)" and "processLine2 k st il = Inr st'" "selectors2 st"
  shows "selectors2 st'"
proof -
  obtain i l where il: "il = (i, l)" by (cases il)
  from processLine2_Inr [OF assms(2) [unfolded il]] assms(3) show ?thesis
    by (auto simp: selectors2_def optList_def requireEntry_def isSelector_getKeccak256 [OF k]
        split: option.splits)
qed

lemma selectors2_forEachE:
  assumes k: "\<And>t. isKeccakHex (k t)"
  shows "forEachE (processLine2 k) st ils = Inr st' \<Longrightarrow> selectors2 st \<Longrightarrow> selectors2 st'"
proof (induction ils arbitrary: st)
  case Nil
  then show ?case by simp
next
  case (Cons il ils)
  then show ?case
    by (auto split: sum.splits dest: selectors2_step [OF k])
qed

lemma digests2_step:
  assumes "processLine2 k st il = Inr st'" "digests2 k st"
  shows "digests2 k st'"
proof -
  obtain i l where il: "il = (i, l)" by (cases il)
  from processLine2_Inr [OF assms(1) [unfolded il]] assms(2) show ?thesis
    by (auto simp: digests2_def optList_def getKeccak256_def split: option.splits)
qed

lemma digests2_forEachE:
  "forEachE (processLine2 k) st ils = Inr st' \<Longrightarrow> digests2 k st \<Longrightarrow> digests2 k st'"
proof (induction ils arbitrary: st)
  case Nil
  then show ?case by simp
next
  case (Cons il ils)
  then show ?case
    by (auto split: sum.splits dest: digests2_step)
qed

lemma lines2_step:
  assumes "processLine2 k st (i, l) = Inr st'"
  shows "map line (functions st') =
           map line (functions st) @ (if matched (match l functionRe) then [i + 1] else [])"
    and "map line (errors st') =
           map line (errors st) @ (if matched (match l errorRe) then [i + 1] else [])"
    and "map line (requires st') =
           map line (requires st) @ (if matched (match l requireRe) then [i + 1] else [])"
  using processLine2_Inr [OF assms]
  by (auto simp: optList_def matched_def requireEntry_def split: option.splits)

lemma lines2_forEachE:
  assumes "forEachE (processLine2 k) st ils = Inr st'"
  shows "map line (functions st') = map line (functions st) @
           map (\<lambda>(i, l). i + 1) (filter (\<lambda>(i, l). matched (match l functionRe)) ils) \<and>
         map line (errors st') = map line (errors st) @
           map (\<lambda>(i, l). i + 1) (filter (\<lambda>(i, l). matched (match l errorRe)) ils) \<and>
         map line (requires st') = map line (requires st) @
           map (\<lambda>(i, l). i + 1) (filter (\<lambda>(i, l). matched (match l requireRe)) ils)"
  using assms
proof (induction ils arbitrary: st)
  case Nil
  then show ?case by simp
next
  case (Cons il ils)
  obtain i l where il: "il = (i, l)" by (cases il)
  from Cons.prems obtain s1 where 1: "processLine2 k st (i, l) = Inr s1"
    and 2: "forEachE (processLine2 k) s1 ils = Inr st'"
    by (auto simp: il split: sum.splits)
  from Cons.IH [OF 2] lines2_step [OF 1] show ?case
    by (simp add: il)
qed

text \<open>
  C8.  The lines of the source are numbered from 1.  The line numbers of the function
  records are, in order, the numbers of the lines that the function rule matches; so
  for the error records and the error rule, and for the require records and the
  require rule; and so in the second script, when it does not throw.
\<close>

theorem line_fidelity:
  "map line (functions (calculateSignatures k source)) =
     filter (\<lambda>n. matched (match (split 0x0A source ! (n - 1)) functionRe))
       [1..<Suc (length (split 0x0A source))] \<and>
   map line (errors (calculateSignatures k source)) =
     filter (\<lambda>n. matched (match (split 0x0A source ! (n - 1)) errorRe))
       [1..<Suc (length (split 0x0A source))] \<and>
   map line (requires (calculateSignatures k source)) =
     filter (\<lambda>n. matched (match (split 0x0A source ! (n - 1)) requireRe))
       [1..<Suc (length (split 0x0A source))] \<and>
   (\<forall>st. calculateSignatures2 k source = Inr st \<longrightarrow>
      map line (functions st) =
        filter (\<lambda>n. matched (match (split 0x0A source ! (n - 1)) functionRe))
          [1..<Suc (length (split 0x0A source))] \<and>
      map line (errors st) =
        filter (\<lambda>n. matched (match (split 0x0A source ! (n - 1)) errorRe))
          [1..<Suc (length (split 0x0A source))] \<and>
      map line (requires st) =
        filter (\<lambda>n. matched (match (split 0x0A source ! (n - 1)) requireRe))
          [1..<Suc (length (split 0x0A source))])"
proof -
  have 1: "map line (functions (calculateSignatures k source)) =
     filter (\<lambda>n. matched (match (split 0x0A source ! (n - 1)) functionRe))
       [1..<Suc (length (split 0x0A source))] \<and>
   map line (errors (calculateSignatures k source)) =
     filter (\<lambda>n. matched (match (split 0x0A source ! (n - 1)) errorRe))
       [1..<Suc (length (split 0x0A source))] \<and>
   map line (requires (calculateSignatures k source)) =
     filter (\<lambda>n. matched (match (split 0x0A source ! (n - 1)) requireRe))
       [1..<Suc (length (split 0x0A source))]"
    unfolding calculateSignatures_def foldl_processLine_fields map_append line_optList matched_lines
    by (simp add: noSigs_def)
  have 2: "map line (functions st) =
        filter (\<lambda>n. matched (match (split 0x0A source ! (n - 1)) functionRe))
          [1..<Suc (length (split 0x0A source))] \<and>
      map line (errors st) =
        filter (\<lambda>n. matched (match (split 0x0A source ! (n - 1)) errorRe))
          [1..<Suc (length (split 0x0A source))] \<and>
      map line (requires st) =
        filter (\<lambda>n. matched (match (split 0x0A source ! (n - 1)) requireRe))
          [1..<Suc (length (split 0x0A source))]"
    if "calculateSignatures2 k source = Inr st" for st
    using lines2_forEachE [OF that [unfolded calculateSignatures2_def]]
    unfolding matched_lines by (simp add: noSigs2_def)
  from 1 2 show ?thesis by blast
qed

theorem line_fidelity_witness:
  "map line (functions (calculateSignatures sampleHash
      (js (''contract C {'' @ [CHR 0x0A] @ ''  function f(uint a) public {'' @ [CHR 0x0A] @
           ''    require(a > 0, '' @ [dq] @ ''zero'' @ [dq] @ '');'' @ [CHR 0x0A] @
           ''  }'' @ [CHR 0x0A] @ ''  error E(uint x);'' @ [CHR 0x0A] @ ''}'')))) = [2] \<and>
   map line (errors (calculateSignatures sampleHash
      (js (''contract C {'' @ [CHR 0x0A] @ ''  function f(uint a) public {'' @ [CHR 0x0A] @
           ''    require(a > 0, '' @ [dq] @ ''zero'' @ [dq] @ '');'' @ [CHR 0x0A] @
           ''  }'' @ [CHR 0x0A] @ ''  error E(uint x);'' @ [CHR 0x0A] @ ''}'')))) = [5] \<and>
   map line (requires (calculateSignatures sampleHash
      (js (''contract C {'' @ [CHR 0x0A] @ ''  function f(uint a) public {'' @ [CHR 0x0A] @
           ''    require(a > 0, '' @ [dq] @ ''zero'' @ [dq] @ '');'' @ [CHR 0x0A] @
           ''  }'' @ [CHR 0x0A] @ ''  error E(uint x);'' @ [CHR 0x0A] @ ''}'')))) = [3] \<and>
   (\<exists>st. calculateSignatures2 sampleHash
      (js (''contract C {'' @ [CHR 0x0A] @ ''  function f(uint a) public {'' @ [CHR 0x0A] @
           ''    require(a > 0, '' @ [dq] @ ''zero'' @ [dq] @ '');'' @ [CHR 0x0A] @
           ''  }'' @ [CHR 0x0A] @ ''  error E(uint x);'' @ [CHR 0x0A] @ ''}'')) = Inr st \<and>
      map line (functions st) = [2] \<and> map line (errors st) = [5] \<and>
      map line (requires st) = [3])"
proof -
  let ?src = "js (''contract C {'' @ [CHR 0x0A] @ ''  function f(uint a) public {'' @ [CHR 0x0A] @
           ''    require(a > 0, '' @ [dq] @ ''zero'' @ [dq] @ '');'' @ [CHR 0x0A] @
           ''  }'' @ [CHR 0x0A] @ ''  error E(uint x);'' @ [CHR 0x0A] @ ''}'')"
  have f: "filter (\<lambda>n. matched (match (split 0x0A ?src ! (n - 1)) functionRe))
             [1..<Suc (length (split 0x0A ?src))] = [2]"
    by code_simp
  have e: "filter (\<lambda>n. matched (match (split 0x0A ?src ! (n - 1)) errorRe))
             [1..<Suc (length (split 0x0A ?src))] = [5]"
    by code_simp
  have r: "filter (\<lambda>n. matched (match (split 0x0A ?src ! (n - 1)) requireRe))
             [1..<Suc (length (split 0x0A ?src))] = [3]"
    by code_simp
  have "case calculateSignatures2 sampleHash ?src of Inl _ \<Rightarrow> False | Inr _ \<Rightarrow> True"
    by code_simp
  then obtain st where st: "calculateSignatures2 sampleHash ?src = Inr st"
    by (auto split: sum.splits)
  from line_fidelity [of sampleHash ?src, unfolded f e r] st show ?thesis
    by blast
qed

section \<open>The digests\<close>

lemma hexdigit: "n < 16 \<Longrightarrow> isLowerHex (js ''0123456789abcdef'' ! n)"
proof -
  have "list_all isLowerHex (js ''0123456789abcdef'')"
    by (simp add: js_simps isLowerHex_def)
  then show "n < 16 \<Longrightarrow> isLowerHex (js ''0123456789abcdef'' ! n)"
    by (simp add: list_all_length)
qed

lemma sampleHash_format: "isKeccakHex (sampleHash t)"
proof -
  have "list_all isLowerHex (map (\<lambda>c. js ''0123456789abcdef'' ! (unat c mod 16)) xs)" for xs
    by (simp add: list_all_iff hexdigit)
  moreover have "length (take 64 (t @ replicate 64 0)) = 64"
    by simp
  ultimately show ?thesis
    unfolding isKeccakHex_def sampleHash_def by (simp add: js_simps del: take_append)
qed

lemma requireDigests_lines:
  "requireDigests k lines
     (concat (map (\<lambda>(i, l). optList (match l requireRe) (requireEntry k i)) (enumerate 0 lines)))"
  unfolding requireDigests_def list_all_iff
  by (auto simp: in_set_enumerate_eq optList_def requireEntry_def getKeccak256_def
      split: option.splits)

lemma requires2_forEachE:
  assumes "forEachE (processLine2 k) st ils = Inr st'"
  shows "requires st' = requires st @
           concat (map (\<lambda>(i, l). optList (match l requireRe) (requireEntry k i)) ils)"
  using assms
proof (induction ils arbitrary: st)
  case Nil
  then show ?case by simp
next
  case (Cons il ils)
  obtain i l where il: "il = (i, l)" by (cases il)
  from Cons.prems obtain s1 where 1: "processLine2 k st (i, l) = Inr s1"
    and 2: "forEachE (processLine2 k) s1 ils = Inr st'"
    by (auto simp: il split: sum.splits)
  from processLine2_Inr [OF 1]
  have "requires s1 = requires st @ optList (match l requireRe) (requireEntry k i)"
    by blast
  with Cons.IH [OF 2] show ?case
    by (simp add: il)
qed

text \<open>
  C7.  The signature of a function record and of an error record, and of a getter in the
  second script, is the hash of the text of the record, cut to 10 code units.  The
  signature of a require record is not the hash of its text: the text is the statement
  put together from the two captures of the line of the record, and the signature is the
  hash of the second capture, the message alone, cut to 10 code units.  If the library's
  hash returns \<^verbatim>\<open>0x\<close> and 64 lower-case hexadecimal digits, then the signature of every
  record of every kind is \<^verbatim>\<open>0x\<close> and 8 lower-case hexadecimal digits.  The second script
  is meant where it does not throw.
\<close>

theorem digest_format:
  "list_all (\<lambda>r. signature r = take 10 (k (text r)))
     (functions (calculateSignatures k source) @ errors (calculateSignatures k source)) \<and>
   requireDigests k (split 0x0A source) (requires (calculateSignatures k source)) \<and>
   (\<forall>st. calculateSignatures2 k source = Inr st \<longrightarrow>
      digests2 k st \<and> requireDigests k (split 0x0A source) (requires st)) \<and>
   ((\<forall>t. isKeccakHex (k t)) \<longrightarrow>
      list_all (\<lambda>r. isSelector (signature r))
        (functions (calculateSignatures k source) @ errors (calculateSignatures k source) @
         requires (calculateSignatures k source)) \<and>
      (\<forall>st. calculateSignatures2 k source = Inr st \<longrightarrow> selectors2 st))"
proof (intro conjI allI impI)
  show "list_all (\<lambda>r. signature r = take 10 (k (text r)))
     (functions (calculateSignatures k source) @ errors (calculateSignatures k source))"
    unfolding calculateSignatures_def foldl_processLine_fields
    by (auto simp: noSigs_def case_prod_unfold optList_def signatureEntry_def getKeccak256_def
        split: option.split intro!: list_all_concat_map)
  show "requireDigests k (split 0x0A source) (requires (calculateSignatures k source))"
    unfolding calculateSignatures_def foldl_processLine_fields
    by (simp add: noSigs_def requireDigests_lines)
next
  fix st
  assume st: "calculateSignatures2 k source = Inr st"
  have "digests2 k noSigs2"
    by (simp add: digests2_def noSigs2_def)
  with st show "digests2 k st"
    using digests2_forEachE [of k] unfolding calculateSignatures2_def by blast
  from st have "requires st =
      concat (map (\<lambda>(i, l). optList (match l requireRe) (requireEntry k i))
        (enumerate 0 (split 0x0A source)))"
    unfolding calculateSignatures2_def by (simp add: requires2_forEachE noSigs2_def)
  then show "requireDigests k (split 0x0A source) (requires st)"
    by (simp add: requireDigests_lines)
next
  assume k: "\<forall>t. isKeccakHex (k t)"
  then have k': "\<And>t. isKeccakHex (k t)" by simp
  show "list_all (\<lambda>r. isSelector (signature r))
        (functions (calculateSignatures k source) @ errors (calculateSignatures k source) @
         requires (calculateSignatures k source))"
    using selectors_script1 [where k = k and source = source, OF k'] by simp
  fix st
  assume st: "calculateSignatures2 k source = Inr st"
  have "selectors2 noSigs2"
    by (simp add: selectors2_def noSigs2_def)
  with st show "selectors2 st"
    using selectors2_forEachE [of k, OF k'] unfolding calculateSignatures2_def by blast
qed

theorem digest_format_witness:
  "list_all (\<lambda>r. isSelector (signature r))
     (functions (calculateSignatures sampleHash
        (js (''function f(uint a) public { require(a > 0, '' @ dq # ''zero'' @ dq # ''); }''))) @
      errors (calculateSignatures sampleHash
        (js (''function f(uint a) public { require(a > 0, '' @ dq # ''zero'' @ dq # ''); }''))) @
      requires (calculateSignatures sampleHash
        (js (''function f(uint a) public { require(a > 0, '' @ dq # ''zero'' @ dq # ''); }'')))) \<and>
   map signature (functions (calculateSignatures sampleHash
        (js (''function f(uint a) public { require(a > 0, '' @ dq # ''zero'' @ dq # ''); }'')))) =
     [take 10 (sampleHash (js ''f(uint)''))] \<and>
   map signature (requires (calculateSignatures sampleHash
        (js (''function f(uint a) public { require(a > 0, '' @ dq # ''zero'' @ dq # ''); }'')))) =
     [take 10 (sampleHash (js ''zero''))] \<and>
   (\<exists>st. calculateSignatures2 sampleHash
        (js (''function f(uint a) public { require(a > 0, '' @ dq # ''zero'' @ dq # ''); }'')) = Inr st \<and>
      selectors2 st \<and> digests2 sampleHash st \<and>
      map signature (requires st) = [take 10 (sampleHash (js ''zero''))])"
proof -
  let ?src = "js (''function f(uint a) public { require(a > 0, '' @ dq # ''zero'' @ dq # ''); }'')"
  have r: "case calculateSignatures2 sampleHash ?src of Inl _ \<Rightarrow> False
           | Inr st \<Rightarrow> map line (requires st) = [1]"
    by code_simp
  then obtain st where st: "calculateSignatures2 sampleHash ?src = Inr st"
    and l2: "map line (requires st) = [1]"
    by (auto split: sum.splits)
  have t: "map text (functions (calculateSignatures sampleHash ?src)) = [js ''f(uint)'']"
    by code_simp
  have l1: "map line (requires (calculateSignatures sampleHash ?src)) = [1]"
    by code_simp
  have ls: "split 0x0A ?src = [?src]"
    by code_simp
  have cap: "case match ?src requireRe of None \<Rightarrow> False | Some m \<Rightarrow> toStr (m 2) = js ''zero''"
    by code_simp
  have key: "map signature rs = [take 10 (sampleHash (js ''zero''))]"
    if "requireDigests sampleHash [?src] rs" "map line rs = [1]" for rs
    using that cap by (auto simp: requireDigests_def split: option.splits)
  note th = digest_format [where k = sampleHash and source = ?src, unfolded ls]
  from th have a: "list_all (\<lambda>r. signature r = take 10 (sampleHash (text r)))
     (functions (calculateSignatures sampleHash ?src) @ errors (calculateSignatures sampleHash ?src))"
    by (rule conjunct1)
  from th have b: "requireDigests sampleHash [?src] (requires (calculateSignatures sampleHash ?src))"
    by blast
  from th st have c: "digests2 sampleHash st" "requireDigests sampleHash [?src] (requires st)"
    by blast+
  from th sampleHash_format have d: "list_all (\<lambda>r. isSelector (signature r))
        (functions (calculateSignatures sampleHash ?src) @ errors (calculateSignatures sampleHash ?src) @
         requires (calculateSignatures sampleHash ?src))"
    by blast
  from th sampleHash_format st have e: "selectors2 st"
    by blast
  from a t have f: "map signature (functions (calculateSignatures sampleHash ?src)) =
     [take 10 (sampleHash (js ''f(uint)''))]"
    by (auto simp: list_all_iff)
  from d f key [OF b l1] st e c(1) key [OF c(2) l2] show ?thesis
    by simp
qed

text \<open>
  The signature of the require record of \<^verbatim>\<open>require(balance >= amount, "Insufficient balance");\<close>
  is made from the message, and the text of the record would give another one.
\<close>

theorem require_digest_counterexample:
  "map signature (requires (calculateSignatures sampleHash
       (js (''require(balance >= amount, '' @ dq # ''Insufficient balance'' @ dq # '');'')))) =
     [js ''0x9e356693''] \<and>
   map (\<lambda>r. take 10 (sampleHash (text r))) (requires (calculateSignatures sampleHash
       (js (''require(balance >= amount, '' @ dq # ''Insufficient balance'' @ dq # '');'')))) =
     [js ''0x25159258'']"
  by code_simp

section \<open>The type of a parameter\<close>

lemma trim_word:
  assumes "t \<noteq> []" "list_all isWordChar t"
  shows "trim t = t"
proof -
  from assms have "\<not> isSpaceChar (hd t)" "\<not> isSpaceChar (last t)"
    by (auto simp: list_all_iff word_not_space)
  with assms(1) have "dropWhile isSpaceChar t = t"
    by (cases t) simp_all
  moreover from assms(1) obtain ys y where "t = ys @ [y]"
    by (cases t rule: rev_cases) auto
  with \<open>\<not> isSpaceChar (last t)\<close> have "dropWhile isSpaceChar (rev t) = rev t"
    by simp
  ultimately show ?thesis by (simp add: trim_def)
qed

lemma match_param_word:
  assumes "t \<noteq> []" "list_all isWordChar t"
  shows "\<exists>m. match t paramRe = Some m \<and> m 1 = Some t \<and> m 3 = None"
proof -
  have c: "list_all (cmatch WordC) t" using assms(2) by (simp add: cmatch_eqs)
  have "wins (Seq (Opt (Group 2 (cat [Plus SpaceC, Plus WordC])))
          (Seq (Opt (Group 3 (lit ''[]''))) (Seq End Eps))) p [] cs cs" for p cs
    by (simp add: wins_def cat_simps lit_simps)
  then have "wins paramRe None (t @ []) (\<lambda>_. None) ((\<lambda>_. None)(1 \<mapsto> t))"
    unfolding paramRe_def cat_simps
    by (intro wins_Group_Plus assms c) (simp add: stops_def)
  from search_wins [OF this] show ?thesis
    by (auto simp: match_def)
qed

lemma trim_spaces:
  assumes "list_all isSpaceChar a" "list_all isSpaceChar b"
    and "x \<noteq> []" "\<not> isSpaceChar (hd x)" "\<not> isSpaceChar (last x)"
  shows "trim (a @ x @ b) = x"
proof -
  from assms(3) obtain y ys where x: "x = y # ys" by (cases x) auto
  from assms(3) obtain zs z where x': "x = zs @ [z]" by (cases x rule: rev_cases) auto
  have "dropWhile isSpaceChar (a @ x @ b) = dropWhile isSpaceChar (x @ b)"
    using assms(1) by (intro dropWhile_append2) (simp add: list_all_iff)
  also have "\<dots> = x @ b"
    using assms(4) by (simp add: x)
  finally have 1: "dropWhile isSpaceChar (a @ x @ b) = x @ b" .
  have "dropWhile isSpaceChar (rev b @ rev x) = dropWhile isSpaceChar (rev x)"
    using assms(2) by (intro dropWhile_append2) (simp add: list_all_iff)
  also have "\<dots> = rev x"
    using assms(5) by (simp add: x')
  finally show ?thesis
    by (simp add: trim_def 1)
qed

lemma ms_Seq:
  "ms (Seq a b) p r cs = concat (map (\<lambda>(p', r', cs'). ms b p' r' cs') (ms a p r cs))"
  by simp

lemma ms_optional_name:
  assumes "w \<noteq> []" "list_all isSpaceChar w" "n \<noteq> []" "list_all isWordChar n"
  shows "\<exists>q ys. ms (Opt (Group 2 (cat [Plus SpaceC, Plus WordC]))) p (w @ n) cs =
           (q, [], cs(2 \<mapsto> w @ n)) # ys"
proof -
  have c: "list_all (cmatch SpaceC) w" "list_all (cmatch WordC) n"
    using assms by (simp_all add: cmatch_eqs)
  have "stops SpaceC (n @ [])"
    using assms(3,4) by (rule stops_word_space)
  then have "stops SpaceC n" by simp
  from ms_Seq_Plus [OF assms(1) c(1) this] obtain ys1 where
    1: "ms (Seq (Plus SpaceC) (Seq (Plus WordC) Eps)) p (w @ n) cs =
          ms (Seq (Plus WordC) Eps) (lastp p w) n cs @ ys1"
    by blast
  have "stops WordC []" by (simp add: stops_def)
  from ms_Seq_Plus [OF assms(3) c(2) this, of Eps "lastp p w" cs] obtain ys2 where
    2: "ms (Seq (Plus WordC) Eps) (lastp p w) n cs = (lastp (lastp p w) n, [], cs) # ys2"
    by auto
  have "ms (cat [Plus SpaceC, Plus WordC]) p (w @ n) cs = (lastp (lastp p w) n, [], cs) # ys2 @ ys1"
    unfolding cat_simps 1 2 by simp
  then show ?thesis
    using assms(1) by simp
qed

lemma match_param_type_name:
  assumes "t \<noteq> []" "list_all isWordChar t" "w \<noteq> []" "list_all isSpaceChar w"
    "n \<noteq> []" "list_all isWordChar n"
  shows "\<exists>m. match (t @ w @ n) paramRe = Some m \<and> m 1 = Some t \<and> m 3 = None"
proof -
  let ?rest = "cat [Opt (Group 2 (cat [Plus SpaceC, Plus WordC])), Opt (Group 3 (lit ''[]'')), End]"
  let ?cs = "(\<lambda>_. None)(1 \<mapsto> t)"
  have c: "list_all (cmatch WordC) t" using assms(2) by (simp add: cmatch_eqs)
  have s: "stops WordC (w @ n)" using assms(3,4) by (rule stops_space_word)
  from ms_optional_name [OF assms(3-6)] obtain q ys where
    "ms (Opt (Group 2 (cat [Plus SpaceC, Plus WordC]))) (lastp None t) (w @ n) ?cs =
       (q, [], ?cs(2 \<mapsto> w @ n)) # ys"
    by blast
  then have "ms ?rest (lastp None t) (w @ n) ?cs =
      ms (cat [Opt (Group 3 (lit ''[]'')), End]) q [] (?cs(2 \<mapsto> w @ n)) @
      concat (map (\<lambda>(p', r', cs'). ms (cat [Opt (Group 3 (lit ''[]'')), End]) p' r' cs') ys)"
    unfolding cat_simps(2) [of "Opt (Group 2 (cat [Plus SpaceC, Plus WordC]))"] ms_Seq by simp
  moreover have "ms (cat [Opt (Group 3 (lit ''[]'')), End]) q [] (?cs(2 \<mapsto> w @ n)) =
      [(q, [], ?cs(2 \<mapsto> w @ n))]"
    by (simp add: cat_simps lit_simps)
  ultimately have "wins ?rest (lastp None t) (w @ n) ?cs (?cs(2 \<mapsto> w @ n))"
    unfolding wins_def by simp
  then have "wins paramRe None (t @ w @ n) (\<lambda>_. None) (?cs(2 \<mapsto> w @ n))"
    unfolding paramRe_def cat_simps(2) [of "Group 1 (Plus WordC)"]
    by (intro wins_Group_Plus assms c s)
  from search_wins [OF this] show ?thesis
    by (auto simp: match_def)
qed

lemma match_param_array:
  assumes "t \<noteq> []" "list_all isWordChar t"
  shows "\<exists>m. match (t @ js ''[]'') paramRe = Some m \<and> m 1 = Some t \<and> m 3 = Some (js ''[]'')"
proof -
  have c: "list_all (cmatch WordC) t" using assms(2) by (simp add: cmatch_eqs)
  have s: "stops WordC (js ''[]'')"
    by (simp add: stops_def js_simps isWordChar_def)
  have "wins (Seq (Opt (Group 2 (cat [Plus SpaceC, Plus WordC])))
          (Seq (Opt (Group 3 (lit ''[]''))) (Seq End Eps))) p (js ''[]'') cs (cs(3 \<mapsto> js ''[]''))"
    for p cs
    by (simp add: wins_def cat_simps lit_simps js_simps isSpaceChar_def isLineTerminator_def)
  then have "wins paramRe None (t @ js ''[]'') (\<lambda>_. None) ((\<lambda>_. None)(1 \<mapsto> t, 3 \<mapsto> js ''[]''))"
    unfolding paramRe_def cat_simps
    by (intro wins_Group_Plus assms c s)
  from search_wins [OF this] show ?thesis
    by (auto simp: match_def)
qed

text \<open>
  What the first script makes of a fragment with a type alone, a type with brackets, or a
  type and a name, white space around them: the type.
\<close>

lemma canonicalType_well_formed:
  assumes "list_all isSpaceChar a" "list_all isSpaceChar b"
    and "t \<noteq> []" "list_all isWordChar t"
    and "w \<noteq> []" "list_all isSpaceChar w"
    and "n \<noteq> []" "list_all isWordChar n"
  shows "canonicalType (a @ t @ b) = t"
    and "canonicalType (a @ t @ js ''[]'' @ b) = t @ js ''[]''"
    and "canonicalType (a @ t @ w @ n @ b) = t"
proof -
  have t: "\<not> isSpaceChar (hd t)" "\<not> isSpaceChar (last t)"
    using assms(3,4) by (auto simp: list_all_iff word_not_space)
  have n: "\<not> isSpaceChar (last n)"
    using assms(7,8) by (auto simp: list_all_iff word_not_space)
  have 1: "trim (a @ t @ b) = t"
    using assms(1,2,3) t by (rule trim_spaces)
  have "trim (a @ (t @ js ''[]'') @ b) = t @ js ''[]''"
    using assms(1,2) by (rule trim_spaces)
      (use assms(3) t in \<open>simp_all add: js_simps isSpaceChar_def isLineTerminator_def\<close>)
  then have 2: "trim (a @ t @ js ''[]'' @ b) = t @ js ''[]''" by simp
  have "trim (a @ (t @ w @ n) @ b) = t @ w @ n"
    using assms(1,2) by (rule trim_spaces) (use assms(3,7) t n in simp_all)
  then have 3: "trim (a @ t @ w @ n @ b) = t @ w @ n" by simp
  show "canonicalType (a @ t @ b) = t"
    using match_param_word [OF assms(3,4)]
    by (auto simp: canonicalType_def 1 toStr_def orEmpty_def)
  show "canonicalType (a @ t @ js ''[]'' @ b) = t @ js ''[]''"
    using match_param_array [OF assms(3,4)]
    by (auto simp: canonicalType_def 2 toStr_def orEmpty_def)
  show "canonicalType (a @ t @ w @ n @ b) = t"
    using match_param_type_name [OF assms(3-8)]
    by (auto simp: canonicalType_def 3 toStr_def orEmpty_def)
qed

text \<open>
  C1.  The type of a parameter is not always the first word of the fragment: of
  \<^verbatim>\<open>uint256 calldata x\<close> the first script makes \<^verbatim>\<open>calldata\<close>, of \<^verbatim>\<open>address[] memory r\<close> it
  makes \<^verbatim>\<open>memory\<close>, and of \<^verbatim>\<open>address[] recipients\<close> the name, \<^verbatim>\<open>recipients\<close>.  The record of
  \<^verbatim>\<open>function f(uint256[] calldata amounts) external\<close> is \<^verbatim>\<open>f(calldata)\<close>.
\<close>

theorem canonicalType_not_first_word:
  "canonicalType (js ''uint256 calldata x'') = js ''calldata'' \<and>
   canonicalType (js ''address[] memory r'') = js ''memory'' \<and>
   canonicalType (js ''address[] recipients'') = js ''recipients'' \<and>
   map text (functions (calculateSignatures k
     (js ''function f(uint256[] calldata amounts) external''))) = [js ''f(calldata)'']"
  by code_simp

text \<open>
  C5.  The first script makes the empty type of a fragment that the pattern does not match.
  The second script indexes the result of \<^verbatim>\<open>match\<close> unguarded: on such a fragment, as
  \<^verbatim>\<open>uint[2]\<close>, it throws a \<^verbatim>\<open>TypeError\<close>, which ends the extraction of the file.
\<close>

theorem canonicalType2_throws:
  "canonicalType2 (Some (js ''uint[2]'')) = Inl TypeError \<and>
   calculateSignatures2 k (js ''error E(uint[2]);'') = Inl TypeError \<and>
   canonicalType (js ''uint[2]'') = [] \<and>
   map text (errors (calculateSignatures k (js ''error E(uint[2]);''))) = [js ''E()'']"
  by code_simp

text \<open>
  C9.  The two scripts do not make the same type of a fragment that ends with \<^verbatim>\<open>[]\<close>: the
  second script drops the brackets that the first appends.
\<close>

theorem canonicalType2_drops_brackets:
  "canonicalType (js ''address[]'') = js ''address[]'' \<and>
   canonicalType2 (Some (js ''address[]'')) = Inr (Some (js ''address''))"
  by code_simp

section \<open>Function declarations\<close>

text \<open>
  A line that reads, after a prefix without the letter \<^verbatim>\<open>f\<close>, \<^verbatim>\<open>function\<close>, white space, a
  name, optional white space and a parameter list in parentheses (the list on that line,
  without a closing parenthesis in it) appends one function record: its line number, as
  text the name and, in parentheses and separated by commas, what \<open>canonicalType\<close>
  makes of the non-empty fragments between the commas of the list, in their order; as
  signature the first 10 code units of the hash of that text.  For an empty list the
  text is the name and \<^verbatim>\<open>()\<close>.
\<close>

lemma function_text:
  assumes "of_char CHR ''f'' \<notin> set pre"
    and "ws1 \<noteq> []" "list_all isSpaceChar ws1"
    and "name \<noteq> []" "list_all isWordChar name"
    and "list_all isSpaceChar ws2"
    and "list_all (\<lambda>c. \<not> isLineTerminator c) params" "of_char CHR '')'' \<notin> set params"
  shows "functions (processLine k st
           (i, pre @ js ''function'' @ ws1 @ name @ ws2 @ js ''('' @ params @ js '')'' @ post)) =
         functions st @
         [\<lparr>line = i + 1,
           text = name @ js ''('' @ join (js '','') (map canonicalType (splitParams params)) @ js '')'',
           signature = take 10 (k (name @ js ''('' @
                          join (js '','') (map canonicalType (splitParams params)) @ js '')''))\<rparr>]"
proof -
  from match_function_shape [OF assms] obtain m
    where "match (pre @ js ''function'' @ ws1 @ name @ ws2 @ js ''('' @ params @ js '')'' @ post)
             functionRe = Some m" "m 1 = Some name" "m 2 = Some params"
    by blast
  then show ?thesis
    by (simp add: processLine_fields optList_def signatureEntry_def toStr_def orEmpty_def
        getCanonicalForm_def getKeccak256_def)
qed

lemma function_text_examples:
  "functions (processLine sampleHash noSigs
       (0, js ''function transfer(address to, uint256 amount) public returns (bool)'')) =
     [\<lparr>line = 1, text = js ''transfer(address,uint256)'',
       signature = take 10 (sampleHash (js ''transfer(address,uint256)''))\<rparr>] \<and>
   functions (processLine sampleHash noSigs (6, js ''  function  f () external;'')) =
     [\<lparr>line = 7, text = js ''f()'', signature = take 10 (sampleHash (js ''f()''))\<rparr>]"
proof -
  have l1: "[] @ js ''function'' @ js '' '' @ js ''transfer'' @ [] @ js ''('' @
            js ''address to, uint256 amount'' @ js '')'' @ js '' public returns (bool)'' =
            js ''function transfer(address to, uint256 amount) public returns (bool)''"
    by (simp add: js_def)
  have t1: "js ''transfer'' @ js ''('' @
            join (js '','') (map canonicalType (splitParams (js ''address to, uint256 amount''))) @
            js '')'' = js ''transfer(address,uint256)''"
    by code_simp
  have l2: "js ''  '' @ js ''function'' @ js ''  '' @ js ''f'' @ js '' '' @ js ''('' @
            [] @ js '')'' @ js '' external;'' = js ''  function  f () external;''"
    by (simp add: js_def)
  have t2: "js ''f'' @ js ''('' @ join (js '','') (map canonicalType (splitParams [])) @ js '')'' =
            js ''f()''"
    by code_simp
  have a: "functions (processLine sampleHash noSigs
       (0, js ''function transfer(address to, uint256 amount) public returns (bool)'')) =
     [\<lparr>line = 1, text = js ''transfer(address,uint256)'',
       signature = take 10 (sampleHash (js ''transfer(address,uint256)''))\<rparr>]"
    using function_text [of "[]" "js '' ''" "js ''transfer''" "[]" "js ''address to, uint256 amount''"
        sampleHash noSigs 0 "js '' public returns (bool)''"]
    unfolding l1 t1
    by (simp add: js_simps isSpaceChar_def isWordChar_def isLineTerminator_def noSigs_def)
  have b: "functions (processLine sampleHash noSigs (6, js ''  function  f () external;'')) =
     [\<lparr>line = 7, text = js ''f()'', signature = take 10 (sampleHash (js ''f()''))\<rparr>]"
    using function_text [of "js ''  ''" "js ''  ''" "js ''f''" "js '' ''" "[]"
        sampleHash noSigs 6 "js '' external;''"]
    unfolding l2 t2
    by (simp add: js_simps isSpaceChar_def isWordChar_def isLineTerminator_def noSigs_def)
  from a b show ?thesis by simp
qed

text \<open>
  C6.  The text of a function record is not always made of the types of the parameters:
  the record of \<^verbatim>\<open>function send(address[] memory recipients, uint256 amount) external\<close> has
  the text \<^verbatim>\<open>send(memory,uint256)\<close>, with the storage keyword in the place of the type
  \<^verbatim>\<open>address[]\<close>, and the signature is the hash of that text.
\<close>

theorem function_record_storage_keyword:
  "functions (calculateSignatures k
      (js ''function send(address[] memory recipients, uint256 amount) external'')) =
     [\<lparr>line = 1, text = js ''send(memory,uint256)'',
       signature = getKeccak256 k (js ''send(memory,uint256)'')\<rparr>]"
  by code_simp

section \<open>Require statements\<close>

text \<open>What the require rule has read of a line that it matches.\<close>

lemma ms_Seq_lit_elim:
  assumes "st \<in> set (ms (Seq (lit s) e) p r cs)"
  obtains r1 where "r = js s @ r1" "st \<in> set (ms e (lastp p (js s)) r1 cs)"
proof -
  from assms have 1: "take (length s) r = js s"
    and 2: "st \<in> set (ms e (lastp p (js s)) (drop (length s) r) cs)"
    unfolding ms_Seq_lit by (auto split: if_splits)
  from 1 have "r = js s @ drop (length s) r"
    by (metis append_take_drop_id)
  from this 2 show ?thesis by (rule that)
qed

lemma ms_Seq_Star_elim:
  assumes "st \<in> set (ms (Seq (Star c) e) p r cs)"
  obtains w r1 p1 where "r = w @ r1" "list_all (cmatch c) w" "st \<in> set (ms e p1 r1 cs)"
proof -
  from assms obtain p1 r1 cs1 where 1: "(p1, r1, cs1) \<in> set (ms (Star c) p r cs)"
    and 2: "st \<in> set (ms e p1 r1 cs1)"
    by (rule ms_Seq_elim)
  from 1 have "(p1, r1) \<in> set (star_greedy c p r)" "cs1 = cs" by auto
  with star_greedy_sound [of p1 r1 c p r] 2 that show ?thesis by blast
qed

lemma ms_Seq_Group_Lazy_elim:
  assumes "st \<in> set (ms (Seq (Group k (LazyStar c)) e) p r cs)"
  obtains w r1 p1 where "r = w @ r1" "list_all (cmatch c) w" "st \<in> set (ms e p1 r1 (cs(k \<mapsto> w)))"
proof -
  from assms obtain p1 r1 cs1 where 1: "(p1, r1, cs1) \<in> set (ms (Group k (LazyStar c)) p r cs)"
    and 2: "st \<in> set (ms e p1 r1 cs1)"
    by (rule ms_Seq_elim)
  from 1 have 3: "(p1, r1) \<in> set (star_lazy c p r)"
    and 4: "cs1 = cs(k \<mapsto> take (length r - length r1) r)"
    by auto
  from star_lazy_sound [OF 3] obtain w where w: "r = w @ r1" "list_all (cmatch c) w"
    by blast
  with 4 have "cs1 = cs(k \<mapsto> w)" by simp
  with 2 w that show ?thesis by blast
qed

lemma require_match_reads:
  assumes "match l requireRe = Some m"
  shows "\<exists>pre c ws msg post.
           l = pre @ js ''require('' @ c @ js '','' @ ws @ js [dq] @ msg @ js (dq # '');'') @ post \<and>
           list_all (\<lambda>x. \<not> isLineTerminator x) c \<and> list_all isSpaceChar ws \<and>
           list_all (\<lambda>x. \<not> isLineTerminator x) msg \<and>
           m 1 = Some c \<and> m 2 = Some msg"
proof -
  from assms have "search requireRe None l = Some m" by (simp add: match_def)
  from search_sound [OF this] obtain p0 r0 pre p' r' cs where
    l: "l = pre @ r0" and
    st: "(p', r', cs) \<in> set (ms requireRe p0 r0 (\<lambda>_. None))" and
    m: "m = cs(0 \<mapsto> take (length r0 - length r') r0)"
    by blast
  from st [unfolded requireRe_def cat_simps] obtain r1 where r1: "r0 = js ''require('' @ r1"
    and 1: "(p', r', cs) \<in> set (ms (Seq (Group 1 (LazyStar Dot)) (Seq (lit '','') (Seq (Star SpaceC)
              (Seq (lit [dq]) (Seq (Group 2 (LazyStar Dot)) (Seq (lit (dq # '');''))
              (Seq (Star SpaceC) Eps))))))) (lastp p0 (js ''require('')) r1 (\<lambda>_. None))"
    by (rule ms_Seq_lit_elim)
  from 1 obtain c r2 p2 where r2: "r1 = c @ r2" and c: "list_all (cmatch Dot) c"
    and 2: "(p', r', cs) \<in> set (ms (Seq (lit '','') (Seq (Star SpaceC)
              (Seq (lit [dq]) (Seq (Group 2 (LazyStar Dot)) (Seq (lit (dq # '');''))
              (Seq (Star SpaceC) Eps)))))) p2 r2 ((\<lambda>_. None)(1 \<mapsto> c)))"
    by (rule ms_Seq_Group_Lazy_elim)
  from 2 obtain r3 where r3: "r2 = js '','' @ r3"
    and 3: "(p', r', cs) \<in> set (ms (Seq (Star SpaceC)
              (Seq (lit [dq]) (Seq (Group 2 (LazyStar Dot)) (Seq (lit (dq # '');''))
              (Seq (Star SpaceC) Eps))))) (lastp p2 (js '','')) r3 ((\<lambda>_. None)(1 \<mapsto> c)))"
    by (rule ms_Seq_lit_elim)
  from 3 obtain ws r4 p4 where r4: "r3 = ws @ r4" and ws: "list_all (cmatch SpaceC) ws"
    and 4: "(p', r', cs) \<in> set (ms (Seq (lit [dq]) (Seq (Group 2 (LazyStar Dot))
              (Seq (lit (dq # '');'')) (Seq (Star SpaceC) Eps)))) p4 r4 ((\<lambda>_. None)(1 \<mapsto> c)))"
    by (rule ms_Seq_Star_elim)
  from 4 obtain r5 where r5: "r4 = js [dq] @ r5"
    and 5: "(p', r', cs) \<in> set (ms (Seq (Group 2 (LazyStar Dot))
              (Seq (lit (dq # '');'')) (Seq (Star SpaceC) Eps))) (lastp p4 (js [dq])) r5
              ((\<lambda>_. None)(1 \<mapsto> c)))"
    by (rule ms_Seq_lit_elim)
  from 5 obtain msg r6 p6 where r6: "r5 = msg @ r6" and msg: "list_all (cmatch Dot) msg"
    and 6: "(p', r', cs) \<in> set (ms (Seq (lit (dq # '');'')) (Seq (Star SpaceC) Eps)) p6 r6
              ((\<lambda>_. None)(1 \<mapsto> c, 2 \<mapsto> msg)))"
    by (rule ms_Seq_Group_Lazy_elim)
  from 6 obtain r7 where r7: "r6 = js (dq # '');'') @ r7"
    and 7: "(p', r', cs) \<in> set (ms (Seq (Star SpaceC) Eps) (lastp p6 (js (dq # '');''))) r7
              ((\<lambda>_. None)(1 \<mapsto> c, 2 \<mapsto> msg)))"
    by (rule ms_Seq_lit_elim)
  from 7 have cs: "cs = (\<lambda>_. None)(1 \<mapsto> c, 2 \<mapsto> msg)"
    by auto
  have "l = pre @ js ''require('' @ c @ js '','' @ ws @ js [dq] @ msg @ js (dq # '');'') @ r7"
    by (simp only: l r1 r2 r3 r4 r5 r6 r7)
  moreover have "m 1 = Some c" "m 2 = Some msg"
    by (simp_all add: m cs)
  ultimately have "l = pre @ js ''require('' @ c @ js '','' @ ws @ js [dq] @ msg @ js (dq # '');'') @ r7 \<and>
           list_all (\<lambda>x. \<not> isLineTerminator x) c \<and> list_all isSpaceChar ws \<and>
           list_all (\<lambda>x. \<not> isLineTerminator x) msg \<and>
           m 1 = Some c \<and> m 2 = Some msg"
    using c ws msg by (simp add: cmatch_eqs)
  then show ?thesis
    by (intro exI)
qed

text \<open>completeness\<close>

text \<open>The lines that the require rule matches.\<close>

lemma star_greedy_complete:
  "list_all (cmatch c) w \<Longrightarrow> (lastp p w, s) \<in> set (star_greedy c p (w @ s))"
proof (induction w arbitrary: p)
  case Nil
  show ?case by (cases s) simp_all
next
  case (Cons a w)
  then show ?case by simp
qed

lemma star_lazy_complete:
  "list_all (cmatch c) w \<Longrightarrow> (lastp p w, s) \<in> set (star_lazy c p (w @ s))"
proof (induction w arbitrary: p)
  case Nil
  show ?case by (cases s) simp_all
next
  case (Cons a w)
  then show ?case by simp
qed

lemma ms_Seq_nonempty:
  assumes "(p1, r1, cs1) \<in> set (ms a p r cs)" "ms b p1 r1 cs1 \<noteq> []"
  shows "ms (Seq a b) p r cs \<noteq> []"
  using assms by (auto simp: concat_eq_Nil_conv intro!: bexI [of _ "(p1, r1, cs1)"])

lemma can_lit: "can e r \<Longrightarrow> can (Seq (lit s) e) (js s @ r)"
  by (simp only: can_def ms_Seq_lit_here) simp

lemma can_Star: "list_all (cmatch c) w \<Longrightarrow> can e s \<Longrightarrow> can (Seq (Star c) e) (w @ s)"
proof (unfold can_def, intro allI)
  fix p cs
  assume w: "list_all (cmatch c) w" and e: "\<forall>p cs. ms e p s cs \<noteq> []"
  from star_greedy_complete [OF w] have "(lastp p w, s, cs) \<in> set (ms (Star c) p (w @ s) cs)"
    by (force simp: image_iff)
  moreover from e have "ms e (lastp p w) s cs \<noteq> []" by blast
  ultimately show "ms (Seq (Star c) e) p (w @ s) cs \<noteq> []"
    by (rule ms_Seq_nonempty)
qed

lemma can_Group_Lazy:
  "list_all (cmatch c) w \<Longrightarrow> can e s \<Longrightarrow> can (Seq (Group k (LazyStar c)) e) (w @ s)"
proof (unfold can_def, intro allI)
  fix p cs
  assume w: "list_all (cmatch c) w" and e: "\<forall>p cs. ms e p s cs \<noteq> []"
  from star_lazy_complete [OF w] have "(lastp p w, s, cs(k \<mapsto> w)) \<in> set (ms (Group k (LazyStar c)) p (w @ s) cs)"
    by (force simp: image_iff)
  moreover from e have "ms e (lastp p w) s (cs(k \<mapsto> w)) \<noteq> []" by blast
  ultimately show "ms (Seq (Group k (LazyStar c)) e) p (w @ s) cs \<noteq> []"
    by (rule ms_Seq_nonempty)
qed

lemma can_Star_Eps: "can (Seq (Star c) Eps) r"
proof (unfold can_def, intro allI)
  fix p cs
  from wins_Star_Eps [of c p r cs] obtain st ys where "ms (Seq (Star c) Eps) p r cs = st # ys"
    unfolding wins_def by blast
  then show "ms (Seq (Star c) Eps) p r cs \<noteq> []"
    by (metis list.distinct(1))
qed

lemma search_can:
  assumes "can e r"
  shows "matched (search e p (pre @ r))"
proof (induction pre arbitrary: p)
  case Nil
  from assms have "ms e p r (\<lambda>_. None) \<noteq> []" by (simp add: can_def)
  then show ?case
    by (cases r) (auto simp: matched_def split: list.splits)
next
  case (Cons x pre)
  then show ?case
    by (auto simp: matched_def split: list.splits option.splits)
qed

lemma require_matches:
  assumes "list_all (\<lambda>x. \<not> isLineTerminator x) c" "list_all isSpaceChar ws"
    "list_all (\<lambda>x. \<not> isLineTerminator x) msg"
  shows "matched (match (pre @ js ''require('' @ c @ js '','' @ ws @ js [dq] @ msg @
           js (dq # '');'') @ post) requireRe)"
proof -
  note a = assms [folded cmatch_eqs]
  have "can requireRe (js ''require('' @ c @ js '','' @ ws @ js [dq] @ msg @ js (dq # '');'') @ post)"
    unfolding requireRe_def cat_simps
    by (intro can_lit can_Group_Lazy can_Star can_Star_Eps a)
  then show ?thesis
    unfolding match_def by (rule search_can)
qed

text \<open>
  C4.  The require rule matches the lines that read, somewhere, \<^verbatim>\<open>require(\<close>, a condition,
  a comma, optional white space, a message in double quotes and \<^verbatim>\<open>);\<close>.  For every line
  that the rule matches, the two captures are a condition and a message of which the
  line is made in this way, and the rule appends one require record: its line number; as
  text the statement put together again from the two captures,
  \<^verbatim>\<open>require(condition, "message")\<close>, not the message; as signature the first 10 code units of
  the hash of the message alone.
\<close>

theorem require_record:
  "(matched (match l requireRe) \<longleftrightarrow>
      (\<exists>pre c ws msg post.
         l = pre @ js ''require('' @ c @ js '','' @ ws @ js [dq] @ msg @ js (dq # '');'') @ post \<and>
         list_all (\<lambda>x. \<not> isLineTerminator x) c \<and> list_all isSpaceChar ws \<and>
         list_all (\<lambda>x. \<not> isLineTerminator x) msg)) \<and>
   (\<forall>m. match l requireRe = Some m \<longrightarrow>
      (\<exists>pre c ws msg post.
         l = pre @ js ''require('' @ c @ js '','' @ ws @ js [dq] @ msg @ js (dq # '');'') @ post \<and>
         list_all isSpaceChar ws \<and> m 1 = Some c \<and> m 2 = Some msg \<and>
         requires (processLine k st (i, l)) =
           requires st @
           [\<lparr>line = i + 1,
             text = js ''require('' @ c @ js '', '' @ js [dq] @ msg @ js [dq] @ js '')'',
             signature = take 10 (k msg)\<rparr>]))"
proof (intro conjI iffI allI impI)
  assume "matched (match l requireRe)"
  then obtain m where "match l requireRe = Some m"
    by (auto simp: matched_def split: option.splits)
  from require_match_reads [OF this]
  show "\<exists>pre c ws msg post.
         l = pre @ js ''require('' @ c @ js '','' @ ws @ js [dq] @ msg @ js (dq # '');'') @ post \<and>
         list_all (\<lambda>x. \<not> isLineTerminator x) c \<and> list_all isSpaceChar ws \<and>
         list_all (\<lambda>x. \<not> isLineTerminator x) msg"
    by blast
next
  assume "\<exists>pre c ws msg post.
         l = pre @ js ''require('' @ c @ js '','' @ ws @ js [dq] @ msg @ js (dq # '');'') @ post \<and>
         list_all (\<lambda>x. \<not> isLineTerminator x) c \<and> list_all isSpaceChar ws \<and>
         list_all (\<lambda>x. \<not> isLineTerminator x) msg"
  then show "matched (match l requireRe)"
    using require_matches by blast
next
  fix m
  assume m: "match l requireRe = Some m"
  from require_match_reads [OF this] obtain pre c ws msg post where
    1: "l = pre @ js ''require('' @ c @ js '','' @ ws @ js [dq] @ msg @ js (dq # '');'') @ post"
    and 2: "list_all isSpaceChar ws" "m 1 = Some c" "m 2 = Some msg"
    by blast
  from m 2 have "requires (processLine k st (i, l)) =
           requires st @
           [\<lparr>line = i + 1,
             text = js ''require('' @ c @ js '', '' @ js [dq] @ msg @ js [dq] @ js '')'',
             signature = take 10 (k msg)\<rparr>]"
    by (simp add: processLine_fields optList_def requireEntry_def toStr_def requireText_def
        getKeccak256_def)
  with 1 2 show "\<exists>pre c ws msg post.
         l = pre @ js ''require('' @ c @ js '','' @ ws @ js [dq] @ msg @ js (dq # '');'') @ post \<and>
         list_all isSpaceChar ws \<and> m 1 = Some c \<and> m 2 = Some msg \<and>
         requires (processLine k st (i, l)) =
           requires st @
           [\<lparr>line = i + 1,
             text = js ''require('' @ c @ js '', '' @ js [dq] @ msg @ js [dq] @ js '')'',
             signature = take 10 (k msg)\<rparr>]"
    by blast
qed

theorem require_record_witness:
  "requires (processLine sampleHash noSigs
       (41, js (''    require(balance >= amount,  '' @ dq # ''Insufficient balance'' @ dq # '');''))) =
     [\<lparr>line = 42,
       text = js (''require(balance >= amount, '' @ dq # ''Insufficient balance'' @ dq # '')''),
       signature = take 10 (sampleHash (js ''Insufficient balance''))\<rparr>] \<and>
   requires (processLine sampleHash noSigs
       (0, js (''require(f(a, b), '' @ dq # ''m'' @ dq # '');''))) =
     [\<lparr>line = 1, text = js (''require(f(a, b), '' @ dq # ''m'' @ dq # '')''),
       signature = take 10 (sampleHash (js ''m''))\<rparr>] \<and>
   requires (processLine sampleHash noSigs
       (0, js (''for (;;) require(ok, '' @ dq # ''m'' @ dq # '');''))) =
     [\<lparr>line = 1, text = js (''require(ok, '' @ dq # ''m'' @ dq # '')''),
       signature = take 10 (sampleHash (js ''m''))\<rparr>]"
proof -
  have rec: "requires (processLine sampleHash noSigs (i, l)) =
      [\<lparr>line = i + 1, text = js ''require('' @ c @ js '', '' @ js [dq] @ msg @ js [dq] @ js '')'',
        signature = take 10 (sampleHash msg)\<rparr>]"
    if "case match l requireRe of None \<Rightarrow> False | Some m \<Rightarrow> m 1 = Some c \<and> m 2 = Some msg"
    for i l c msg
  proof -
    from that obtain m where m: "match l requireRe = Some m" "m 1 = Some c" "m 2 = Some msg"
      by (auto split: option.splits)
    from require_record [of l sampleHash noSigs i] m(1)
    obtain pre c' ws msg' post where "m 1 = Some c'" "m 2 = Some msg'"
      "requires (processLine sampleHash noSigs (i, l)) =
           requires noSigs @
           [\<lparr>line = i + 1,
             text = js ''require('' @ c' @ js '', '' @ js [dq] @ msg' @ js [dq] @ js '')'',
             signature = take 10 (sampleHash msg')\<rparr>]"
      by blast
    with m show ?thesis
      by (simp add: noSigs_def)
  qed
  have 1: "case match (js (''    require(balance >= amount,  '' @ dq # ''Insufficient balance'' @ dq # '');''))
             requireRe of None \<Rightarrow> False
           | Some m \<Rightarrow> m 1 = Some (js ''balance >= amount'') \<and> m 2 = Some (js ''Insufficient balance'')"
    by code_simp
  have 2: "case match (js (''require(f(a, b), '' @ dq # ''m'' @ dq # '');'')) requireRe of
             None \<Rightarrow> False
           | Some m \<Rightarrow> m 1 = Some (js ''f(a, b)'') \<and> m 2 = Some (js ''m'')"
    by code_simp
  have 3: "case match (js (''for (;;) require(ok, '' @ dq # ''m'' @ dq # '');'')) requireRe of
             None \<Rightarrow> False
           | Some m \<Rightarrow> m 1 = Some (js ''ok'') \<and> m 2 = Some (js ''m'')"
    by code_simp
  from rec [OF 1, of 41] rec [OF 2, of 0] rec [OF 3, of 0] show ?thesis
    by (simp add: js_def)
qed

text \<open>The text of the record is the statement, not the message.\<close>

theorem require_text_counterexample:
  "map text (requires (calculateSignatures sampleHash
       (js (''require(balance >= amount, '' @ dq # ''Insufficient balance'' @ dq # '');'')))) =
     [js (''require(balance >= amount, '' @ dq # ''Insufficient balance'' @ dq # '')'')] \<and>
   map text (requires (calculateSignatures sampleHash
       (js (''require(balance >= amount, '' @ dq # ''Insufficient balance'' @ dq # '');'')))) \<noteq>
     [js ''Insufficient balance'']"
  by code_simp

section \<open>Public variables\<close>

text \<open>
  C2.  For the line \<^verbatim>\<open>uint256 public totalSupply = 0;\<close> the second script makes the getter
  \<^verbatim>\<open>totalSupply(public)\<close>: the pattern takes the two words before the \<^verbatim>\<open>=\<close>, and the word
  before the name is \<^verbatim>\<open>public\<close>, not the type.
\<close>

theorem getter_of_totalSupply:
  "calculateSignatures2 k (js ''uint256 public totalSupply = 0;'') =
     Inr \<lparr>functions = [], errors = [], requires = [],
          getters = [\<lparr>gtext = js ''totalSupply(public)'',
                      gsignature = getKeccak256 k (js ''totalSupply(public)'')\<rparr>]\<rparr>"
  by code_simp

lemma varRe_type_capture:
  assumes "match l varRe = Some m"
  shows "\<exists>t. m 1 = Some t \<and> t \<noteq> [] \<and> list_all isWordChar t"
proof -
  let ?rest = "cat [Plus SpaceC, Group 2 (Plus WordC), Star SpaceC,
                lit ''='', Star SpaceC, Group 3 (Star Dot), lit '';'']"
  from assms have "search varRe None l = Some m" by (simp add: match_def)
  from search_sound [OF this] obtain p0 r0 p' r' cs where
    "(p', r', cs) \<in> set (ms varRe p0 r0 (\<lambda>_. None))" and m: "m = cs(0 \<mapsto> take (length r0 - length r') r0)"
    by blast
  then have "(p', r', cs) \<in> set (ms (Seq Bound (Seq (Group 1 (Plus WordC)) ?rest)) p0 r0 (\<lambda>_. None))"
    by (simp only: varRe_def cat_simps)
  then obtain p1 r1 cs1 where
    "(p', r', cs) \<in> set (ms (Seq (Group 1 (Plus WordC)) ?rest) p1 r1 cs1)"
    by (rule ms_Seq_elim)
  then obtain p2 r2 cs2 where 1: "(p2, r2, cs2) \<in> set (ms (Group 1 (Plus WordC)) p1 r1 cs1)"
    and 2: "(p', r', cs) \<in> set (ms ?rest p2 r2 cs2)"
    by (rule ms_Seq_elim)
  from ms_Group_Plus_sound [OF 1] obtain t where t: "cs2 1 = Some t" "t \<noteq> []" "list_all isWordChar t"
    by (auto simp: cmatch_eqs)
  have "1 \<notin> groups ?rest" by (simp add: cat_simps)
  from ms_caps_other [OF 2 this] t m show ?thesis by simp
qed

lemma canonicalType2_word:
  assumes "t \<noteq> []" "list_all isWordChar t"
  shows "canonicalType2 (Some t) = Inr (Some t)"
  using match_param_word [OF assms] by (auto simp: canonicalType2_def trim_word [OF assms])

lemma matchPublicVar_eq:
  "matchPublicVar k l st =
     Inr (case match l varRe of
            None \<Rightarrow> st
          | Some m \<Rightarrow>
              if matched (match l publicRe)
              then st\<lparr>getters := getters st @
                     [\<lparr>gtext = toStr (m 2) @ js ''('' @ toStr (m 1) @ js '')'',
                       gsignature = getKeccak256 k (toStr (m 2) @ js ''('' @ toStr (m 1) @ js '')'')\<rparr>]\<rparr>
              else st)"
proof (cases "match l varRe")
  case None
  then show ?thesis by (simp add: matchPublicVar_def split: option.split)
next
  case (Some m)
  from varRe_type_capture [OF this] obtain t where t: "m 1 = Some t" "t \<noteq> []" "list_all isWordChar t"
    by blast
  then have "getCanonicalForm2 (toStr (m 2)) [m 1] = Inr (toStr (m 2) @ js ''('' @ t @ js '')'')"
    by (simp add: getCanonicalForm2_def canonicalType2_word orEmpty_def)
  with Some t show ?thesis
    by (simp add: matchPublicVar_def matched_def toStr_def split: option.split)
qed

lemma isWordAfter_public: "take 6 r = js ''public'' \<Longrightarrow> isWordAfter r"
  by (cases r) (auto simp: isWordAfter_def js_simps isWordChar_def)

lemma ms_publicRe:
  "ms publicRe p r cs =
     (if wordAt (js ''public'') p r then [(Some (of_char CHR ''c''), drop 6 r, cs)] else [])"
proof -
  have 1: "ms (Seq Bound e) p r cs = (if isWordBefore p \<noteq> isWordAfter r then ms e p r cs else [])"
    for e p r cs
    by simp
  have 2: "lastp p (js ''public'') = Some (of_char CHR ''c'')"
    by (simp add: js_simps)
  have 3: "isWordBefore (Some (of_char CHR ''c''))"
    by (simp add: isWordBefore_def isWordChar_def)
  have 4: "ms publicRe p r cs =
      (if isWordBefore p \<noteq> isWordAfter r
       then ms (Seq (lit ''public'') (Seq Bound Eps)) p r cs else [])"
    by (simp only: publicRe_def cat_simps 1)
  have 5: "ms (Seq (lit ''public'') (Seq Bound Eps)) p r cs =
      (if take 6 r = js ''public''
       then ms (Seq Bound Eps) (Some (of_char CHR ''c'')) (drop 6 r) cs else [])"
  proof -
    have "length ''public'' = 6" by simp
    then show ?thesis by (simp only: ms_Seq_lit 2)
  qed
  have 6: "ms (Seq Bound Eps) (Some (of_char CHR ''c'')) (drop 6 r) cs =
      (if isWordAfter (drop 6 r) then [] else [(Some (of_char CHR ''c''), drop 6 r, cs)])"
    using 3 by simp
  have "length (js ''public'') = 6" by simp
  then have 7: "wordAt (js ''public'') p r \<longleftrightarrow>
      take 6 r = js ''public'' \<and> \<not> isWordBefore p \<and> \<not> isWordAfter (drop 6 r)"
    by (simp only: wordAt_def)
  show ?thesis
    unfolding 4 5 6 7 by (auto dest: isWordAfter_public)
qed

lemma search_publicRe: "matched (search publicRe p r) = wordFrom (js ''public'') p r"
  by (induction r arbitrary: p) (simp_all add: ms_publicRe matched_def)

lemma matched_publicRe: "matched (match l publicRe) = containsWord (js ''public'') l"
  by (simp add: match_def containsWord_def search_publicRe)

lemma needs_lit: "needs (of_char c) (Seq (lit (c # s)) e)"
  unfolding needs_def ms_Seq_lit
  by (auto simp: js_simps split: if_splits) (metis in_set_takeD list.set_intros(1))

lemma needs_Seq: "needs d b \<Longrightarrow> needs d (Seq a b)"
proof (unfold needs_def, intro allI impI)
  fix p r cs
  assume b: "\<forall>p r cs. ms b p r cs \<noteq> [] \<longrightarrow> d \<in> set r" and "ms (Seq a b) p r cs \<noteq> []"
  then have "hd (ms (Seq a b) p r cs) \<in> set (ms (Seq a b) p r cs)"
    by (intro hd_in_set)
  then obtain st where "st \<in> set (ms (Seq a b) p r cs)" ..
  then obtain p1 r1 cs1 where 1: "(p1, r1, cs1) \<in> set (ms a p r cs)" and 2: "st \<in> set (ms b p1 r1 cs1)"
    by (rule ms_Seq_elim)
  from 2 have "ms b p1 r1 cs1 \<noteq> []" by auto
  with b have "d \<in> set r1" by blast
  moreover from ms_suffix [OF 1] obtain u where "r = u @ r1" by blast
  ultimately show "d \<in> set r" by simp
qed

lemma search_needs:
  assumes "needs d e" "search e p r = Some m"
  shows "d \<in> set r"
proof -
  from search_sound [OF assms(2)] obtain p0 r0 u st where "r = u @ r0" "st \<in> set (ms e p0 r0 (\<lambda>_. None))"
    by blast
  then have "r = u @ r0" "ms e p0 r0 (\<lambda>_. None) \<noteq> []" by auto
  with assms(1) show ?thesis unfolding needs_def by auto
qed

lemma varRe_needs_eq:
  assumes "of_char CHR ''='' \<notin> set l"
  shows "match l varRe = None"
proof -
  have "needs (of_char CHR ''='') varRe"
    unfolding varRe_def cat_simps by (intro needs_Seq needs_lit)
  with assms show ?thesis
    by (cases "match l varRe") (auto simp: match_def dest: search_needs)
qed

text \<open>
  C10.  The block for public variables never throws.  It appends a getter for a line if and
  only if the line contains \<^verbatim>\<open>public\<close> as a word of its own, anywhere (in a comment as well, not
  inside a longer word), and the pattern \<^verbatim>\<open>/\b(\w+)\s+(\w+)\s*=\s*(.*);/\<close> matches the line; the
  getter is made of the two words that the pattern captured.  A line without \<^verbatim>\<open>=\<close>, as a
  public variable without an initializer, gets no getter.
\<close>

theorem getter_iff:
  "matchPublicVar k l st =
     Inr (case match l varRe of
            None \<Rightarrow> st
          | Some m \<Rightarrow>
              if containsWord (js ''public'') l
              then st\<lparr>getters := getters st @
                     [\<lparr>gtext = toStr (m 2) @ js ''('' @ toStr (m 1) @ js '')'',
                       gsignature =
                         getKeccak256 k (toStr (m 2) @ js ''('' @ toStr (m 1) @ js '')'')\<rparr>]\<rparr>
              else st) \<and>
   (of_char CHR ''='' \<notin> set l \<longrightarrow> matchPublicVar k l st = Inr st) \<and>
   (\<forall>i st'. processLine2 k st (i, l) = Inr st' \<longrightarrow>
      length (getters st') =
        length (getters st) +
        (if containsWord (js ''public'') l \<and> matched (match l varRe) then 1 else 0))"
proof (intro conjI allI impI)
  show 1: "matchPublicVar k l st =
     Inr (case match l varRe of
            None \<Rightarrow> st
          | Some m \<Rightarrow>
              if containsWord (js ''public'') l
              then st\<lparr>getters := getters st @
                     [\<lparr>gtext = toStr (m 2) @ js ''('' @ toStr (m 1) @ js '')'',
                       gsignature =
                         getKeccak256 k (toStr (m 2) @ js ''('' @ toStr (m 1) @ js '')'')\<rparr>]\<rparr>
              else st)" for st
    by (simp only: matchPublicVar_eq matched_publicRe)
  show "matchPublicVar k l st = Inr st" if "of_char CHR ''='' \<notin> set l"
    by (simp add: 1 varRe_needs_eq [OF that])
  show "length (getters st') =
        length (getters st) +
        (if containsWord (js ''public'') l \<and> matched (match l varRe) then 1 else 0)"
    if "processLine2 k st (i, l) = Inr st'" for i st'
    using processLine2_Inr [OF that] by (auto simp: matched_publicRe)
qed

theorem getter_iff_witness:
  "matchPublicVar sampleHash (js ''uint256 total = 0; // public'') noSigs2 =
     Inr (noSigs2\<lparr>getters :=
            [\<lparr>gtext = js ''total(uint256)'',
              gsignature = take 10 (sampleHash (js ''total(uint256)''))\<rparr>]\<rparr>) \<and>
   matchPublicVar sampleHash (js ''uint256 public totalSupply;'') noSigs2 = Inr noSigs2 \<and>
   matchPublicVar sampleHash (js ''uint256 total = 0; // republic'') noSigs2 = Inr noSigs2"
proof -
  let ?a = "js ''uint256 total = 0; // public''"
  let ?b = "js ''uint256 public totalSupply;''"
  let ?c = "js ''uint256 total = 0; // republic''"
  have a1: "containsWord (js ''public'') ?a" by code_simp
  have a2: "case match ?a varRe of None \<Rightarrow> False
            | Some m \<Rightarrow> m 1 = Some (js ''uint256'') \<and> m 2 = Some (js ''total'')"
    by code_simp
  have a3: "js ''total'' @ js ''('' @ js ''uint256'' @ js '')'' = js ''total(uint256)''"
    by (simp add: js_def)
  have b1: "of_char CHR ''='' \<notin> set ?b" by (simp add: js_simps)
  have c1: "\<not> containsWord (js ''public'') ?c" by code_simp
  from getter_iff [of sampleHash ?a noSigs2] a1 a2 a3
  have a: "matchPublicVar sampleHash ?a noSigs2 =
     Inr (noSigs2\<lparr>getters :=
            [\<lparr>gtext = js ''total(uint256)'',
              gsignature = take 10 (sampleHash (js ''total(uint256)''))\<rparr>]\<rparr>)"
    by (auto simp: toStr_def getKeccak256_def noSigs2_def split: option.splits)
  from getter_iff [of sampleHash ?b noSigs2] b1
  have b: "matchPublicVar sampleHash ?b noSigs2 = Inr noSigs2"
    by blast
  from getter_iff [of sampleHash ?c noSigs2] c1
  have c: "matchPublicVar sampleHash ?c noSigs2 = Inr noSigs2"
    by (auto split: option.splits)
  from a b c show ?thesis by blast
qed

section \<open>One line, several rules\<close>

text \<open>The second script on one line.\<close>

lemma mapE_canonicalType2:
  "mapE canonicalType2 (map Some inputs) =
     (if list_all (\<lambda>input. matched (match (trim input) paramRe)) inputs
      then Inr (map (\<lambda>input. case match (trim input) paramRe of None \<Rightarrow> None | Some m \<Rightarrow> m 1) inputs)
      else Inl TypeError)"
  by (induction inputs) (auto simp: canonicalType2_def matched_def split: option.splits)

lemma getCanonicalForm2_eq:
  "getCanonicalForm2 name (map Some inputs) =
     (if list_all (\<lambda>input. matched (match (trim input) paramRe)) inputs
      then Inr (name @ js ''('' @ join (js '','') (map typeOf2 inputs) @ js '')'')
      else Inl TypeError)"
proof -
  have "map orEmpty (map (\<lambda>input. case match (trim input) paramRe of None \<Rightarrow> None | Some m \<Rightarrow> m 1) inputs) =
        map typeOf2 inputs"
    by (induction inputs) (simp_all add: typeOf2_def orEmpty_def split: option.splits)
  then show ?thesis
    by (cases "list_all (\<lambda>input. matched (match (trim input) paramRe)) inputs")
      (simp_all only: getCanonicalForm2_def mapE_canonicalType2 if_True if_False sum.case)
qed

lemma matchFunction2_eq:
  "matchFunction2 k i l st =
     (if list_all (\<lambda>input. matched (match (trim input) paramRe)) (fragments (match l functionRe))
      then Inr (st\<lparr>functions := functions st @ optList (match l functionRe) (signatureEntry2 k i)\<rparr>)
      else Inl TypeError)"
  by (cases "match l functionRe")
    (simp_all add: matchFunction2_def fragments_def optList_def signatureEntry2_def Let_def
      getCanonicalForm2_eq orEmpty_def)

lemma matchError2_eq:
  "matchError2 k i l st =
     (if list_all (\<lambda>input. matched (match (trim input) paramRe)) (fragments (match l errorRe))
      then Inr (st\<lparr>errors := errors st @ optList (match l errorRe) (signatureEntry2 k i)\<rparr>)
      else Inl TypeError)"
  by (cases "match l errorRe")
    (simp_all add: matchError2_def fragments_def optList_def signatureEntry2_def Let_def
      getCanonicalForm2_eq orEmpty_def)

lemma matchPublicVar_eq2:
  "matchPublicVar k l st =
     Inr (st\<lparr>getters := getters st @
            (if containsWord (js ''public'') l then optList (match l varRe) (getterEntry k) else [])\<rparr>)"
  by (simp add: matchPublicVar_eq matched_publicRe optList_def getterEntry_def split: option.split)

lemma processLine2_eq:
  "processLine2 k st (i, l) =
     (if typed l
      then Inr (st\<lparr>functions := functions st @ optList (match l functionRe) (signatureEntry2 k i),
                   errors := errors st @ optList (match l errorRe) (signatureEntry2 k i),
                   requires := requires st @ optList (match l requireRe) (requireEntry k i),
                   getters := getters st @
                     (if containsWord (js ''public'') l
                      then optList (match l varRe) (getterEntry k) else [])\<rparr>)
      else Inl TypeError)"
  by (simp add: processLine2_def bindE_def matchFunction2_eq matchError2_eq matchRequire2_eq
      matchPublicVar_eq2 typed_def)

text \<open>
  C3.  Every rule is applied to every line, whatever the other rules found.  In the first
  script the function rule, the error rule and the require rule each append one record
  to their own sequence if they match the line and nothing if they do not.  The second
  script does the same, with the rule for public variables after them, on every line on
  which the pattern for types matches every parameter fragment of the function and error
  declarations found; on the other lines it throws.  So a line yields at most one record
  of each kind, and it can yield records of several kinds.
\<close>

theorem rules_are_independent:
  "functions (processLine k st (i, l)) =
     functions st @ optList (match l functionRe) (signatureEntry k i) \<and>
   errors (processLine k st (i, l)) =
     errors st @ optList (match l errorRe) (signatureEntry k i) \<and>
   requires (processLine k st (i, l)) =
     requires st @ optList (match l requireRe) (requireEntry k i) \<and>
   processLine2 k st2 (i, l) =
     (if typed l
      then Inr (st2\<lparr>functions := functions st2 @ optList (match l functionRe) (signatureEntry2 k i),
                    errors := errors st2 @ optList (match l errorRe) (signatureEntry2 k i),
                    requires := requires st2 @ optList (match l requireRe) (requireEntry k i),
                    getters := getters st2 @
                      (if containsWord (js ''public'') l
                       then optList (match l varRe) (getterEntry k) else [])\<rparr>)
      else Inl TypeError)"
  by (simp only: processLine_fields processLine2_eq simp_thms)

theorem rules_are_independent_witness:
  "map line (functions (processLine sampleHash noSigs
      (0, js (''function f() public { require(ok, '' @ dq # ''no'' @ dq # ''); }'')))) = [1] \<and>
   errors (processLine sampleHash noSigs
      (0, js (''function f() public { require(ok, '' @ dq # ''no'' @ dq # ''); }''))) = [] \<and>
   map line (requires (processLine sampleHash noSigs
      (0, js (''function f() public { require(ok, '' @ dq # ''no'' @ dq # ''); }'')))) = [1] \<and>
   processLine2 sampleHash noSigs2
      (0, js (''function f() public { require(ok, '' @ dq # ''no'' @ dq # ''); }'')) =
     Inr \<lparr>functions =
            [\<lparr>line = 1, text = js ''f()'', signature = take 10 (sampleHash (js ''f()''))\<rparr>],
          errors = [],
          requires =
            [\<lparr>line = 1, text = js (''require(ok, '' @ dq # ''no'' @ dq # '')''),
              signature = take 10 (sampleHash (js ''no''))\<rparr>],
          getters = []\<rparr>"
proof -
  let ?l = "js (''function f() public { require(ok, '' @ dq # ''no'' @ dq # ''); }'')"
  have t: "typed ?l" by code_simp
  have f: "optList (match ?l functionRe) (signatureEntry sampleHash 0) =
      [\<lparr>line = 1, text = js ''f()'', signature = take 10 (sampleHash (js ''f()''))\<rparr>]"
    by code_simp
  have f2: "optList (match ?l functionRe) (signatureEntry2 sampleHash 0) =
      [\<lparr>line = 1, text = js ''f()'', signature = take 10 (sampleHash (js ''f()''))\<rparr>]"
    by code_simp
  have e: "optList (match ?l errorRe) (signatureEntry sampleHash 0) = []"
    "optList (match ?l errorRe) (signatureEntry2 sampleHash 0) = []"
    by code_simp+
  have r: "optList (match ?l requireRe) (requireEntry sampleHash 0) =
      [\<lparr>line = 1, text = js (''require(ok, '' @ dq # ''no'' @ dq # '')''),
        signature = take 10 (sampleHash (js ''no''))\<rparr>]"
    by code_simp
  have g: "optList (match ?l varRe) (getterEntry sampleHash) = []"
    by code_simp
  show ?thesis
    using rules_are_independent [of sampleHash noSigs 0 ?l noSigs2] t
    unfolding f f2 e r g by (simp add: noSigs_def noSigs2_def)
qed

text \<open>
  A line with a function declaration and a require statement yields a function record
  and a require record.
\<close>

theorem two_kinds_on_one_line:
  "map line (functions (calculateSignatures sampleHash
      (js (''function f() public { require(ok, '' @ dq # ''no'' @ dq # ''); }'')))) = [1] \<and>
   map line (requires (calculateSignatures sampleHash
      (js (''function f() public { require(ok, '' @ dq # ''no'' @ dq # ''); }'')))) = [1]"
  by code_simp

end
